theory Spec2Isabelle
  imports Main "HOL-Library.Word"
begin

section \<open>STM32BufferedSerial: data model\<close>

text \<open>
  The class declared in \<^verbatim>\<open>STM32BufferedSerial.hpp\<close> is embedded field by field, its
  member functions from the implementation file.
  Indices and sizes are \<^verbatim>\<open>uint16_t\<close>, bytes are \<^verbatim>\<open>uint8_t\<close>; arithmetic on them
  happens in \<^verbatim>\<open>int\<close> after integer promotion (32 bits on the target, so it never
  wraps for 16-bit operands) and is written on \<open>nat\<close>/\<open>int\<close> through \<open>unat\<close>/\<open>uint\<close>.
  Leading underscores of the member names are dropped (\<^verbatim>\<open>_rxHead\<close> is \<open>rxHead\<close>).
\<close>

type_synonym uint8_t = "8 word"
type_synonym uint16_t = "16 word"
type_synonym addr = nat

text \<open>
  Undefined behaviour of the C++ source is a value of the model: the remainder by a zero
  buffer size, an array access outside the allocated storage, and the dereference of a
  pointer that refers to no object.
\<close>

datatype fault = DivisionByZero | OutOfBounds | InvalidPointer

definition bind_result :: "fault + 'a \<Rightarrow> ('a \<Rightarrow> fault + 'b) \<Rightarrow> fault + 'b" where
  "bind_result m f = (case m of Inl e \<Rightarrow> Inl e | Inr x \<Rightarrow> f x)"

subsection \<open>The transport endpoint (STM32 HAL UART handle)\<close>

text \<open>
  \<^verbatim>\<open>huart->Instance\<close> is compared with the six peripheral base addresses
  \<^verbatim>\<open>USART1 .. USART6\<close>; any other address is \<open>OtherPeripheral\<close>.
\<close>

datatype USART_TypeDef =
  USART1 | USART2 | USART3 | UART4 | UART5 | USART6 | OtherPeripheral nat

datatype HAL_StatusTypeDef = HAL_OK | HAL_ERROR | HAL_BUSY | HAL_TIMEOUT

datatype HAL_LockTypeDef = HAL_UNLOCKED | HAL_LOCKED

datatype HAL_UART_StateTypeDef =
  HAL_UART_STATE_RESET | HAL_UART_STATE_READY | HAL_UART_STATE_BUSY
  | HAL_UART_STATE_BUSY_TX | HAL_UART_STATE_BUSY_RX | HAL_UART_STATE_BUSY_TX_RX
  | HAL_UART_STATE_TIMEOUT | HAL_UART_STATE_ERROR

text \<open>Every request the driver makes of the transport is recorded, oldest first.\<close>

datatype hal_call =
  Receive_IT HAL_StatusTypeDef
  | Transmit_IT uint8_t HAL_StatusTypeDef
  | Unlock
  | AbortReceive

record UART_HandleTypeDef =
  Instance :: USART_TypeDef
  Lock :: HAL_LockTypeDef
  gState :: HAL_UART_StateTypeDef
  RxState :: HAL_UART_StateTypeDef
  rxOutstanding :: nat
  calls :: "hal_call list"

text \<open>
  The STM32 HAL library (\<^verbatim>\<open>stm32f4xx_hal.h\<close>) is an external collaborator and not
  part of the repository. The spec gives its contract (section 6): one-unit receive and
  transmit requests, an idle/busy status, and the abort and unlock operations of the
  busy-recovery path. The four definitions below are a simulated transport with that
  contract. \<open>rxOutstanding\<close> counts the receive requests that were accepted and neither
  completed nor aborted.
\<close>

text \<open>
  Modelled from the spec: \<^verbatim>\<open>HAL_UART_Receive_IT(huart, &_rxTmp, 1)\<close>, the one-unit
  receive request. It is rejected with \<^verbatim>\<open>HAL_BUSY\<close> when the transport reports itself
  busy (the handle is locked or the receive state is not ready); otherwise it is
  accepted and one more request is outstanding.
\<close>

definition HAL_UART_Receive_IT ::
  "UART_HandleTypeDef \<Rightarrow> HAL_StatusTypeDef \<times> UART_HandleTypeDef" where
  "HAL_UART_Receive_IT h =
     (if Lock h = HAL_LOCKED \<or> RxState h \<noteq> HAL_UART_STATE_READY
      then (HAL_BUSY, h\<lparr>calls := calls h @ [Receive_IT HAL_BUSY]\<rparr>)
      else (HAL_OK, h\<lparr>RxState := HAL_UART_STATE_BUSY_RX,
                       rxOutstanding := rxOutstanding h + 1,
                       calls := calls h @ [Receive_IT HAL_OK]\<rparr>))"

text \<open>
  Modelled from the spec: \<^verbatim>\<open>HAL_UART_Transmit_IT(huart, &data, 1)\<close>, the one-unit
  transmit request, with the byte that \<^verbatim>\<open>data\<close> holds at the call. It is rejected
  when the handle is locked or the transmit state \<^verbatim>\<open>gState\<close> is not ready; otherwise
  the transport becomes busy transmitting.
\<close>

definition HAL_UART_Transmit_IT ::
  "UART_HandleTypeDef \<Rightarrow> uint8_t \<Rightarrow> HAL_StatusTypeDef \<times> UART_HandleTypeDef" where
  "HAL_UART_Transmit_IT h data =
     (if Lock h = HAL_LOCKED \<or> gState h \<noteq> HAL_UART_STATE_READY
      then (HAL_BUSY, h\<lparr>calls := calls h @ [Transmit_IT data HAL_BUSY]\<rparr>)
      else (HAL_OK, h\<lparr>gState := HAL_UART_STATE_BUSY_TX,
                       calls := calls h @ [Transmit_IT data HAL_OK]\<rparr>))"

text \<open>
  Modelled from the spec: \<^verbatim>\<open>__HAL_UNLOCK(huart)\<close>, which clears the lock state of the
  transport.
\<close>

definition HAL_UNLOCK :: "UART_HandleTypeDef \<Rightarrow> UART_HandleTypeDef" where
  "HAL_UNLOCK h = h\<lparr>Lock := HAL_UNLOCKED, calls := calls h @ [Unlock]\<rparr>"

text \<open>
  Modelled from the spec: \<^verbatim>\<open>HAL_UART_AbortReceive(huart)\<close>, which aborts the receive
  operation: the receive state is ready again and no request is outstanding.
\<close>

definition HAL_UART_AbortReceive ::
  "UART_HandleTypeDef \<Rightarrow> HAL_StatusTypeDef \<times> UART_HandleTypeDef" where
  "HAL_UART_AbortReceive h =
     (HAL_OK, h\<lparr>RxState := HAL_UART_STATE_READY, rxOutstanding := 0,
                  calls := calls h @ [AbortReceive]\<rparr>)"

text \<open>
  Modelled from the spec: the hardware completes the transmit request in flight and the
  transport returns to idle before \<^verbatim>\<open>HAL_UART_TxCpltCallback\<close> runs.
\<close>

definition uart_tx_done :: "UART_HandleTypeDef \<Rightarrow> UART_HandleTypeDef" where
  "uart_tx_done h = h\<lparr>gState := HAL_UART_STATE_READY\<rparr>"

text \<open>The bytes carried by the transmit requests of a call log, in order of issue.\<close>

fun transmitted :: "hal_call list \<Rightarrow> uint8_t list" where
  "transmitted [] = []"
| "transmitted (Transmit_IT b st # cs) = b # transmitted cs"
| "transmitted (c # cs) = transmitted cs"

fun receive_requests :: "hal_call list \<Rightarrow> nat" where
  "receive_requests [] = 0"
| "receive_requests (Receive_IT st # cs) = Suc (receive_requests cs)"
| "receive_requests (c # cs) = receive_requests cs"

subsection \<open>The driver object\<close>

record STM32BufferedSerial =
  huart :: addr
  rxBuf :: "uint8_t list"
  txBuf :: "uint8_t list"
  rxSize :: uint16_t
  txSize :: uint16_t
  rxHead :: uint16_t
  rxTail :: uint16_t
  txHead :: uint16_t
  txTail :: uint16_t
  rxTmp :: uint8_t

text \<open>
  \<^verbatim>\<open>(i + 1) % n\<close>: both operands are promoted to \<^verbatim>\<open>int\<close>, the result is stored in a
  \<^verbatim>\<open>uint16_t\<close>. A zero \<open>n\<close> is undefined behaviour.
\<close>

definition next_index :: "uint16_t \<Rightarrow> uint16_t \<Rightarrow> fault + uint16_t" where
  "next_index i n =
     (if n = 0 then Inl DivisionByZero else Inr (of_nat ((unat i + 1) mod unat n)))"

text \<open>\<^verbatim>\<open>buf[i]\<close> as an rvalue and \<^verbatim>\<open>buf[i] = v\<close>, on storage of \<open>length buf\<close> bytes.\<close>

definition load :: "uint8_t list \<Rightarrow> uint16_t \<Rightarrow> fault + uint8_t" where
  "load buf i = (if unat i < length buf then Inr (buf ! unat i) else Inl OutOfBounds)"

definition store :: "uint8_t list \<Rightarrow> uint16_t \<Rightarrow> uint8_t \<Rightarrow> fault + uint8_t list" where
  "store buf i v = (if unat i < length buf then Inr (buf[unat i := v]) else Inl OutOfBounds)"

text \<open>
  \<^verbatim>\<open>new uint8_t[n]\<close>: storage of \<open>n\<close> bytes whose initial contents are indeterminate;
  \<open>junk\<close> stands for whatever the allocator returns.
\<close>

definition new_uint8_array :: "(nat \<Rightarrow> uint8_t) \<Rightarrow> uint16_t \<Rightarrow> uint8_t list" where
  "new_uint8_array junk n = map junk [0..<unat n]"

text \<open>The member initialisers and allocations of the constructor (registration follows below).\<close>

definition init_fields ::
  "addr \<Rightarrow> uint16_t \<Rightarrow> (nat \<Rightarrow> uint8_t) \<Rightarrow> (nat \<Rightarrow> uint8_t) \<Rightarrow> STM32BufferedSerial" where
  "init_fields hu bufSize junk_rx junk_tx =
     \<lparr>huart = hu,
      rxBuf = new_uint8_array junk_rx bufSize,
      txBuf = new_uint8_array junk_tx bufSize,
      rxSize = bufSize, txSize = bufSize,
      rxHead = 0, rxTail = 0, txHead = 0, txTail = 0,
      rxTmp = 0\<rparr>"

subsection \<open>Member functions, on the object and the handle it points to\<close>

text \<open>
  Three names differ from the source's: \<open>serial_begin\<close> is \<^verbatim>\<open>begin()\<close>,
  \<open>write_byte\<close> is \<^verbatim>\<open>write(uint8_t)\<close> and \<open>write_bytes\<close> is
  \<^verbatim>\<open>write(const uint8_t*, uint16_t)\<close>. A function that can run into undefined
  behaviour returns a \<open>fault\<close> on the left; \<^verbatim>\<open>int\<close> results are \<open>int\<close>.
\<close>

definition startRxInterrupt :: "UART_HandleTypeDef \<Rightarrow> UART_HandleTypeDef" where
  "startRxInterrupt h = snd (HAL_UART_Receive_IT h)"

definition serial_begin :: "UART_HandleTypeDef \<Rightarrow> UART_HandleTypeDef" where
  "serial_begin h = startRxInterrupt h"

definition handleRxComplete ::
  "STM32BufferedSerial \<Rightarrow> UART_HandleTypeDef
     \<Rightarrow> fault + (STM32BufferedSerial \<times> UART_HandleTypeDef)" where
  "handleRxComplete s h =
     bind_result (next_index (rxHead s) (rxSize s)) (\<lambda>next.
     bind_result
       (if next \<noteq> rxTail s
        then bind_result (store (rxBuf s) (rxHead s) (rxTmp s))
               (\<lambda>buf. Inr (s\<lparr>rxBuf := buf, rxHead := next\<rparr>))
        else Inr s) (\<lambda>s'.
     (case HAL_UART_Receive_IT h of
        (st, h1) \<Rightarrow>
          if st \<noteq> HAL_OK
          then Inr (s', snd (HAL_UART_Receive_IT
                              (snd (HAL_UART_AbortReceive (HAL_UNLOCK h1)))))
          else Inr (s', h1))))"

definition handleTxComplete ::
  "STM32BufferedSerial \<Rightarrow> UART_HandleTypeDef
     \<Rightarrow> fault + (STM32BufferedSerial \<times> UART_HandleTypeDef)" where
  "handleTxComplete s h =
     (if txTail s \<noteq> txHead s
      then bind_result (load (txBuf s) (txTail s)) (\<lambda>data.
           bind_result (next_index (txTail s) (txSize s)) (\<lambda>next.
           Inr (s\<lparr>txTail := next\<rparr>, snd (HAL_UART_Transmit_IT h data))))
      else Inr (s, h))"

definition startTxInterrupt ::
  "STM32BufferedSerial \<Rightarrow> UART_HandleTypeDef
     \<Rightarrow> fault + (STM32BufferedSerial \<times> UART_HandleTypeDef)" where
  "startTxInterrupt s h =
     (if txTail s = txHead s then Inr (s, h)
      else bind_result (load (txBuf s) (txTail s)) (\<lambda>data.
           bind_result (next_index (txTail s) (txSize s)) (\<lambda>next.
           Inr (s\<lparr>txTail := next\<rparr>, snd (HAL_UART_Transmit_IT h data)))))"

definition read :: "STM32BufferedSerial \<Rightarrow> fault + (int \<times> STM32BufferedSerial)" where
  "read s =
     (if rxTail s = rxHead s then Inr (- 1, s)
      else bind_result (load (rxBuf s) (rxTail s)) (\<lambda>data.
           bind_result (next_index (rxTail s) (rxSize s)) (\<lambda>next.
           Inr (uint data, s\<lparr>rxTail := next\<rparr>))))"

definition write_byte ::
  "STM32BufferedSerial \<Rightarrow> UART_HandleTypeDef \<Rightarrow> uint8_t
     \<Rightarrow> fault + (int \<times> STM32BufferedSerial \<times> UART_HandleTypeDef)" where
  "write_byte s h data =
     bind_result (next_index (txHead s) (txSize s)) (\<lambda>next.
     if next = txTail s then Inr (- 1, s, h)
     else bind_result (store (txBuf s) (txHead s) data) (\<lambda>buf.
          if gState h = HAL_UART_STATE_READY
          then bind_result (startTxInterrupt (s\<lparr>txBuf := buf, txHead := next\<rparr>) h)
                 (\<lambda>(s', h'). Inr (1, s', h'))
          else Inr (1, s\<lparr>txBuf := buf, txHead := next\<rparr>, h)))"

text \<open>
  The loop of \<^verbatim>\<open>write(const uint8_t* data, uint16_t len)\<close>, from loop counter \<open>i\<close> and
  running count \<open>written\<close>. \<open>data\<close> is the caller's array; reading past its end is
  undefined behaviour.
\<close>

function write_loop ::
  "STM32BufferedSerial \<Rightarrow> UART_HandleTypeDef \<Rightarrow> uint8_t list \<Rightarrow> uint16_t \<Rightarrow> uint16_t
     \<Rightarrow> int \<Rightarrow> fault + (int \<times> STM32BufferedSerial \<times> UART_HandleTypeDef)" where
  "write_loop s h data len i written =
     (if i < len
      then (case load data i of
              Inl e \<Rightarrow> Inl e
            | Inr d \<Rightarrow>
                (case write_byte s h d of
                   Inl e \<Rightarrow> Inl e
                 | Inr (r, s', h') \<Rightarrow>
                     if r = 1 then write_loop s' h' data len (i + 1) (written + 1)
                     else Inr (written, s', h')))
      else Inr (written, s, h))"
  by pat_completeness auto
termination
proof (relation "measure (\<lambda>(s, h, data, len, i, written). unat len - unat i)")
  show "wf (measure (\<lambda>(s, h, data, len, i, written). unat len - unat i))"
    by simp
next
  fix s :: STM32BufferedSerial and h :: UART_HandleTypeDef and data :: "uint8_t list"
    and len i :: uint16_t and written :: int
    and s' :: STM32BufferedSerial and h' :: UART_HandleTypeDef
  assume lt: "i < len"
  have "unat i < unat len" using lt by (simp add: word_less_nat_alt)
  moreover have "unat len < 2 ^ 16" using unsigned_less [of len] by simp
  ultimately have "unat i + 1 < 2 ^ 16" and "unat i < unat len" by simp_all
  then have "unat len - unat (i + 1) < unat len - unat i"
    by (simp add: unat_word_ariths)
  then show "((s', h', data, len, i + 1, written + 1), (s, h, data, len, i, written))
      \<in> measure (\<lambda>(s, h, data, len, i, written). unat len - unat i)"
    by simp
qed

declare write_loop.simps [simp del]

definition write_bytes ::
  "STM32BufferedSerial \<Rightarrow> UART_HandleTypeDef \<Rightarrow> uint8_t list \<Rightarrow> uint16_t
     \<Rightarrow> fault + (int \<times> STM32BufferedSerial \<times> UART_HandleTypeDef)" where
  "write_bytes s h data len = write_loop s h data len 0 0"

definition push :: "STM32BufferedSerial \<Rightarrow> uint8_t \<Rightarrow> fault + STM32BufferedSerial" where
  "push s c =
     bind_result (next_index (rxHead s) (rxSize s)) (\<lambda>next.
     if next \<noteq> rxTail s
     then bind_result (store (rxBuf s) (rxHead s) c)
            (\<lambda>buf. Inr (s\<lparr>rxBuf := buf, rxHead := next\<rparr>))
     else Inr s)"

definition pop :: "STM32BufferedSerial \<Rightarrow> fault + (int \<times> STM32BufferedSerial)" where
  "pop s =
     (if rxHead s = rxTail s then Inr (- 1, s)
      else bind_result (load (rxBuf s) (rxTail s)) (\<lambda>val.
           bind_result (next_index (rxTail s) (rxSize s)) (\<lambda>next.
           Inr (uint val, s\<lparr>rxTail := next\<rparr>))))"

definition available :: "STM32BufferedSerial \<Rightarrow> bool" where
  "available s = (rxHead s \<noteq> rxTail s)"

text \<open>
  \<^verbatim>\<open>readable_len\<close>: the subtractions are \<^verbatim>\<open>int\<close> subtractions of promoted
  \<^verbatim>\<open>uint16_t\<close> values.
\<close>

definition readable_len :: "STM32BufferedSerial \<Rightarrow> int" where
  "readable_len s =
     (if rxHead s < rxTail s
      then uint (rxSize s) - (uint (rxTail s) - uint (rxHead s))
      else uint (rxHead s) - uint (rxTail s))"

definition flushRx :: "STM32BufferedSerial \<Rightarrow> STM32BufferedSerial" where
  "flushRx s = s\<lparr>rxHead := 0, rxTail := 0\<rparr>"

definition flushTx :: "STM32BufferedSerial \<Rightarrow> STM32BufferedSerial" where
  "flushTx s = s\<lparr>txHead := 0, txTail := 0\<rparr>"

subsection \<open>The instance registry and the program state\<close>

text \<open>
  The program state holds the static table \<^verbatim>\<open>instance_table_[MAX_UARTS]\<close>, the UART
  handles and the driver objects, both by address. A table entry is \<open>None\<close> for
  \<^verbatim>\<open>nullptr\<close>. The table is indexed by the constants 0 to 5 only.
\<close>

definition MAX_UARTS :: nat where
  "MAX_UARTS = 6"

record world =
  instance_table :: "nat \<Rightarrow> addr option"
  handles :: "addr \<Rightarrow> UART_HandleTypeDef option"
  serials :: "addr \<Rightarrow> STM32BufferedSerial option"

text \<open>\<^verbatim>\<open>instance_table_[MAX_UARTS] = {nullptr}\<close> with the handles the application owns.\<close>

definition initial_world :: "(addr \<Rightarrow> UART_HandleTypeDef option) \<Rightarrow> world" where
  "initial_world hs = \<lparr>instance_table = (\<lambda>i. None), handles = hs, serials = (\<lambda>a. None)\<rparr>"

definition registerInstance :: "addr \<Rightarrow> addr option \<Rightarrow> world \<Rightarrow> fault + world" where
  "registerInstance hu inst w =
     (case handles w hu of
        None \<Rightarrow> Inl InvalidPointer
      | Some h \<Rightarrow>
          Inr (if Instance h = USART1 then w\<lparr>instance_table := (instance_table w)(0 := inst)\<rparr>
               else if Instance h = USART2 then w\<lparr>instance_table := (instance_table w)(1 := inst)\<rparr>
               else if Instance h = USART3 then w\<lparr>instance_table := (instance_table w)(2 := inst)\<rparr>
               else if Instance h = UART4 then w\<lparr>instance_table := (instance_table w)(3 := inst)\<rparr>
               else if Instance h = UART5 then w\<lparr>instance_table := (instance_table w)(4 := inst)\<rparr>
               else if Instance h = USART6 then w\<lparr>instance_table := (instance_table w)(5 := inst)\<rparr>
               else w))"

definition fromHandle :: "addr \<Rightarrow> world \<Rightarrow> fault + addr option" where
  "fromHandle hu w =
     (case handles w hu of
        None \<Rightarrow> Inl InvalidPointer
      | Some h \<Rightarrow>
          Inr (if Instance h = USART1 then instance_table w 0
               else if Instance h = USART2 then instance_table w 1
               else if Instance h = USART3 then instance_table w 2
               else if Instance h = UART4 then instance_table w 3
               else if Instance h = UART5 then instance_table w 4
               else if Instance h = USART6 then instance_table w 5
               else None))"

text \<open>
  The constructor: the object is created at address \<open>this\<close>, then registers itself
  under its handle.
\<close>

definition construct ::
  "addr \<Rightarrow> addr \<Rightarrow> uint16_t \<Rightarrow> (nat \<Rightarrow> uint8_t) \<Rightarrow> (nat \<Rightarrow> uint8_t) \<Rightarrow> world
     \<Rightarrow> fault + world" where
  "construct this hu bufSize junk_rx junk_tx w =
     registerInstance hu (Some this)
       (w\<lparr>serials := (serials w)(this := Some (init_fields hu bufSize junk_rx junk_tx))\<rparr>)"

text \<open>
  A member function called through an object pointer: the object and the handle behind
  its \<^verbatim>\<open>_huart\<close> are read from the state and written back.
\<close>

definition on_object ::
  "addr \<Rightarrow> (STM32BufferedSerial \<Rightarrow> UART_HandleTypeDef
             \<Rightarrow> fault + (STM32BufferedSerial \<times> UART_HandleTypeDef))
     \<Rightarrow> world \<Rightarrow> fault + world" where
  "on_object this f w =
     (case serials w this of
        None \<Rightarrow> Inl InvalidPointer
      | Some s \<Rightarrow>
          (case handles w (huart s) of
             None \<Rightarrow> Inl InvalidPointer
           | Some h \<Rightarrow>
               bind_result (f s h) (\<lambda>(s', h').
                 Inr (w\<lparr>serials := (serials w)(this := Some s'),
                        handles := (handles w)(huart s := Some h')\<rparr>))))"

text \<open>The two global HAL callbacks, which dispatch a completion to the registered object.\<close>

definition HAL_UART_RxCpltCallback :: "addr \<Rightarrow> world \<Rightarrow> fault + world" where
  "HAL_UART_RxCpltCallback hu w =
     bind_result (fromHandle hu w) (\<lambda>obj.
       case obj of None \<Rightarrow> Inr w | Some this \<Rightarrow> on_object this handleRxComplete w)"

definition HAL_UART_TxCpltCallback :: "addr \<Rightarrow> world \<Rightarrow> fault + world" where
  "HAL_UART_TxCpltCallback hu w =
     bind_result (fromHandle hu w) (\<lambda>obj.
       case obj of None \<Rightarrow> Inr w | Some this \<Rightarrow> on_object this handleTxComplete w)"

text \<open>Everything the application and the hardware can do to the program state.\<close>

datatype api_call =
  Construct addr addr uint16_t "nat \<Rightarrow> uint8_t" "nat \<Rightarrow> uint8_t"
  | RegisterInstance addr "addr option"
  | FromHandle addr
  | Begin addr
  | Read addr
  | Write addr uint8_t
  | WriteBytes addr "uint8_t list" uint16_t
  | Available addr
  | ReadableLen addr
  | FlushRx addr
  | FlushTx addr
  | RxCpltCallback addr
  | TxCpltCallback addr

fun perform :: "api_call \<Rightarrow> world \<Rightarrow> fault + world" where
  "perform (Construct this hu n junk_rx junk_tx) w = construct this hu n junk_rx junk_tx w"
| "perform (RegisterInstance hu inst) w = registerInstance hu inst w"
| "perform (FromHandle hu) w = bind_result (fromHandle hu w) (\<lambda>r. Inr w)"
| "perform (Begin this) w = on_object this (\<lambda>s h. Inr (s, serial_begin h)) w"
| "perform (Read this) w =
     on_object this (\<lambda>s h. bind_result (read s) (\<lambda>(r, s'). Inr (s', h))) w"
| "perform (Write this b) w =
     on_object this (\<lambda>s h. bind_result (write_byte s h b) (\<lambda>(r, s', h'). Inr (s', h'))) w"
| "perform (WriteBytes this data len) w =
     on_object this
       (\<lambda>s h. bind_result (write_bytes s h data len) (\<lambda>(r, s', h'). Inr (s', h'))) w"
| "perform (Available this) w = on_object this (\<lambda>s h. Inr (s, h)) w"
| "perform (ReadableLen this) w = on_object this (\<lambda>s h. Inr (s, h)) w"
| "perform (FlushRx this) w = on_object this (\<lambda>s h. Inr (flushRx s, h)) w"
| "perform (FlushTx this) w = on_object this (\<lambda>s h. Inr (flushTx s, h)) w"
| "perform (RxCpltCallback hu) w = HAL_UART_RxCpltCallback hu w"
| "perform (TxCpltCallback hu) w = HAL_UART_TxCpltCallback hu w"

fun perform_all :: "api_call list \<Rightarrow> world \<Rightarrow> fault + world" where
  "perform_all [] w = Inr w"
| "perform_all (c # cs) w = bind_result (perform c w) (perform_all cs)"

subsection \<open>Ring-buffer contents and invariants\<close>

text \<open>
  The bytes queued in a ring of \<open>n\<close> slots with read index \<open>t\<close> and write index \<open>h\<close>,
  oldest first: the \<open>k\<close>-th queued byte sits in slot \<open>(t + k) mod n\<close>.
\<close>

definition ring_count :: "nat \<Rightarrow> nat \<Rightarrow> nat \<Rightarrow> nat" where
  "ring_count n t h = (h + n - t) mod n"

definition ring_contents :: "uint8_t list \<Rightarrow> nat \<Rightarrow> nat \<Rightarrow> nat \<Rightarrow> uint8_t list" where
  "ring_contents buf n t h = map (\<lambda>k. buf ! ((t + k) mod n)) [0..<ring_count n t h]"

definition rx_contents :: "STM32BufferedSerial \<Rightarrow> uint8_t list" where
  "rx_contents s =
     ring_contents (rxBuf s) (unat (rxSize s)) (unat (rxTail s)) (unat (rxHead s))"

definition tx_contents :: "STM32BufferedSerial \<Rightarrow> uint8_t list" where
  "tx_contents s =
     ring_contents (txBuf s) (unat (txSize s)) (unat (txTail s)) (unat (txHead s))"

definition rx_ok :: "STM32BufferedSerial \<Rightarrow> bool" where
  "rx_ok s \<longleftrightarrow>
     rxSize s \<noteq> 0 \<and> length (rxBuf s) = unat (rxSize s)
     \<and> rxHead s < rxSize s \<and> rxTail s < rxSize s"

definition tx_ok :: "STM32BufferedSerial \<Rightarrow> bool" where
  "tx_ok s \<longleftrightarrow>
     txSize s \<noteq> 0 \<and> length (txBuf s) = unat (txSize s)
     \<and> txHead s < txSize s \<and> txTail s < txSize s"

definition tx_free :: "STM32BufferedSerial \<Rightarrow> nat" where
  "tx_free s = unat (txSize s) - 1 - length (tx_contents s)"

definition rx_free :: "STM32BufferedSerial \<Rightarrow> nat" where
  "rx_free s = unat (rxSize s) - 1 - length (rx_contents s)"

subsection \<open>Operation sequences\<close>

text \<open>
  A run of the inbound ring: the hardware stages a byte in \<^verbatim>\<open>_rxTmp\<close>, the
  completion handler runs, the application reads. The run records the bytes the handler
  committed to the ring (the write index moved) and the values \<open>read\<close> returned other
  than the "no data" result \<open>-1\<close>, both in order.
\<close>

datatype rx_op = Stage uint8_t | RxComplete | ReadByte

record rx_run =
  port :: STM32BufferedSerial
  uart :: UART_HandleTypeDef
  committed :: "uint8_t list"
  popped :: "int list"

fun rx_step :: "rx_op \<Rightarrow> rx_run \<Rightarrow> fault + rx_run" where
  "rx_step (Stage b) r = Inr (r\<lparr>port := (port r)\<lparr>rxTmp := b\<rparr>\<rparr>)"
| "rx_step RxComplete r =
     bind_result (handleRxComplete (port r) (uart r)) (\<lambda>(s', h').
       Inr (r\<lparr>port := s', uart := h',
              committed := (if rxHead s' \<noteq> rxHead (port r)
                            then committed r @ [rxTmp (port r)] else committed r)\<rparr>))"
| "rx_step ReadByte r =
     bind_result (read (port r)) (\<lambda>(v, s').
       Inr (r\<lparr>port := s', popped := (if v \<noteq> - 1 then popped r @ [v] else popped r)\<rparr>))"

fun rx_run_ops :: "rx_op list \<Rightarrow> rx_run \<Rightarrow> fault + rx_run" where
  "rx_run_ops [] r = Inr r"
| "rx_run_ops (x # xs) r = bind_result (rx_step x r) (rx_run_ops xs)"

text \<open>
  A run of the outbound ring: the application writes a byte, or the hardware finishes
  the transfer in flight and the completion handler runs. The run records the bytes
  \<open>write_byte\<close> accepted (result 1), in order; the dequeued bytes are read off the
  transmit requests in the handle's call log.
\<close>

datatype tx_op = WriteByte uint8_t | TxComplete

record tx_run =
  tport :: STM32BufferedSerial
  tuart :: UART_HandleTypeDef
  accepted :: "uint8_t list"

fun tx_step :: "tx_op \<Rightarrow> tx_run \<Rightarrow> fault + tx_run" where
  "tx_step (WriteByte b) r =
     bind_result (write_byte (tport r) (tuart r) b) (\<lambda>(v, s', h').
       Inr (r\<lparr>tport := s', tuart := h',
              accepted := (if v = 1 then accepted r @ [b] else accepted r)\<rparr>))"
| "tx_step TxComplete r =
     bind_result (handleTxComplete (tport r) (uart_tx_done (tuart r))) (\<lambda>(s', h').
       Inr (r\<lparr>tport := s', tuart := h'\<rparr>))"

fun tx_run_ops :: "tx_op list \<Rightarrow> tx_run \<Rightarrow> fault + tx_run" where
  "tx_run_ops [] r = Inr r"
| "tx_run_ops (x # xs) r = bind_result (tx_step x r) (tx_run_ops xs)"

text \<open>
  The table slot that the if-chains of \<^verbatim>\<open>registerInstance\<close> and \<^verbatim>\<open>fromHandle\<close>
  select for a peripheral; the peripheral and the slot behind a handle pointer; and
  whether an operation registers under a given peripheral.
\<close>

fun slot_of :: "USART_TypeDef \<Rightarrow> nat option" where
  "slot_of USART1 = Some 0"
| "slot_of USART2 = Some 1"
| "slot_of USART3 = Some 2"
| "slot_of UART4 = Some 3"
| "slot_of UART5 = Some 4"
| "slot_of USART6 = Some 5"
| "slot_of (OtherPeripheral a) = None"

definition identity_of :: "world \<Rightarrow> addr \<Rightarrow> USART_TypeDef option" where
  "identity_of w hu = map_option Instance (handles w hu)"

definition slot_at :: "world \<Rightarrow> addr \<Rightarrow> nat option" where
  "slot_at w hu = (case identity_of w hu of None \<Rightarrow> None | Some p \<Rightarrow> slot_of p)"

fun registers_for :: "world \<Rightarrow> USART_TypeDef \<Rightarrow> api_call \<Rightarrow> bool" where
  "registers_for w p (Construct this hu n junk_rx junk_tx) = (identity_of w hu = Some p)"
| "registers_for w p (RegisterInstance hu inst) = (identity_of w hu = Some p)"
| "registers_for w p c = False"

subsection \<open>Example states\<close>

text \<open>
  An idle USART2 handle; a handle whose receive side still reports busy and whose lock
  is held; a freshly constructed port of capacity 4; a capacity-4 port whose outbound
  ring holds the three bytes 10, 20, 30; a capacity-8 port whose inbound ring holds the
  byte 9; a capacity-8 port whose inbound ring has wrapped
  (read index 6, write index 1); a capacity-5 port with empty rings; the
  program state before any constructor has run, with the idle handle at address 1.
\<close>

definition idle_uart :: UART_HandleTypeDef where
  "idle_uart = \<lparr>Instance = USART2, Lock = HAL_UNLOCKED, gState = HAL_UART_STATE_READY,
     RxState = HAL_UART_STATE_READY, rxOutstanding = 0, calls = []\<rparr>"

definition stale_uart :: UART_HandleTypeDef where
  "stale_uart = \<lparr>Instance = USART2, Lock = HAL_LOCKED, gState = HAL_UART_STATE_BUSY_TX,
     RxState = HAL_UART_STATE_BUSY_RX, rxOutstanding = 0, calls = []\<rparr>"

definition fresh_port :: STM32BufferedSerial where
  "fresh_port = init_fields 1 4 (\<lambda>i. 0) (\<lambda>i. 0)"

definition full_tx_port :: STM32BufferedSerial where
  "full_tx_port = \<lparr>huart = 1, rxBuf = [0, 0, 0, 0], txBuf = [10, 20, 30, 0],
     rxSize = 4, txSize = 4, rxHead = 0, rxTail = 0, txHead = 3, txTail = 0, rxTmp = 0\<rparr>"

definition one_queued_port :: STM32BufferedSerial where
  "one_queued_port = \<lparr>huart = 1, rxBuf = [9, 0, 0, 0, 0, 0, 0, 0],
     txBuf = [9, 0, 0, 0, 0, 0, 0, 0],
     rxSize = 8, txSize = 8, rxHead = 1, rxTail = 0, txHead = 1, txTail = 0, rxTmp = 0\<rparr>"

definition wrapped_port :: STM32BufferedSerial where
  "wrapped_port = \<lparr>huart = 1, rxBuf = [3, 0, 0, 0, 0, 0, 1, 2],
     txBuf = [0, 0, 0, 0, 0, 0, 0, 0],
     rxSize = 8, txSize = 8, rxHead = 1, rxTail = 6, txHead = 0, txTail = 0, rxTmp = 0\<rparr>"

definition one_uart_world :: world where
  "one_uart_world = initial_world (\<lambda>a. if a = 1 then Some idle_uart else None)"

definition five_slot_port :: STM32BufferedSerial where
  "five_slot_port = init_fields 1 5 (\<lambda>i. 0) (\<lambda>i. 0)"

section \<open>Ring arithmetic\<close>

lemma mod_twice_cases:
  fixes x n :: nat
  assumes "x < 2 * n"
  shows "x mod n = (if x < n then x else x - n)"
proof (cases "x < n")
  case True then show ?thesis by simp
next
  case False
  then have "x = (x - n) + n" and "x - n < n" using assms by simp_all
  then have "x mod n = x - n" by (metis mod_add_self2 mod_less)
  with False show ?thesis by simp
qed

lemma ring_count_cases:
  assumes "t < n" "h < n"
  shows "ring_count n t h = (if t \<le> h then h - t else h + n - t)"
  using assms by (simp add: ring_count_def mod_twice_cases)

lemma ring_count_less: "0 < n \<Longrightarrow> ring_count n t h < n"
  by (simp add: ring_count_def)

lemma length_ring_contents [simp]: "length (ring_contents buf n t h) = ring_count n t h"
  by (simp add: ring_contents_def)

lemma ring_empty_iff:
  assumes "t < n" "h < n"
  shows "ring_count n t h = 0 \<longleftrightarrow> t = h"
  using assms by (auto simp: ring_count_cases)

lemma ring_full_iff:
  assumes "t < n" "h < n"
  shows "Suc h mod n = t \<longleftrightarrow> ring_count n t h = n - 1"
  using assms by (auto simp: ring_count_cases mod_twice_cases split: if_splits)

lemma ring_count_push:
  assumes "t < n" "h < n" "Suc h mod n \<noteq> t"
  shows "ring_count n t (Suc h mod n) = Suc (ring_count n t h)"
  using assms by (auto simp: ring_count_cases mod_twice_cases split: if_splits)

lemma ring_count_pop:
  assumes "t < n" "h < n" "t \<noteq> h"
  shows "ring_count n t h = Suc (ring_count n (Suc t mod n) h)"
  using assms by (auto simp: ring_count_cases mod_twice_cases split: if_splits)

lemma ring_slot_head:
  assumes "t < n" "h < n"
  shows "(t + ring_count n t h) mod n = h"
  using assms by (auto simp: ring_count_cases mod_twice_cases)

lemma ring_slot_not_head:
  assumes "t < n" "h < n" "k < ring_count n t h"
  shows "(t + k) mod n \<noteq> h"
  using assms by (auto simp: ring_count_cases mod_twice_cases split: if_splits)

lemma ring_contents_push:
  assumes "t < n" "h < n" "length buf = n" "Suc h mod n \<noteq> t"
  shows "ring_contents (buf[h := v]) n t (Suc h mod n) = ring_contents buf n t h @ [v]"
proof -
  have cnt: "ring_count n t (Suc h mod n) = Suc (ring_count n t h)"
    using assms by (simp add: ring_count_push)
  have old: "map (\<lambda>k. buf[h := v] ! ((t + k) mod n)) [0..<ring_count n t h]
      = map (\<lambda>k. buf ! ((t + k) mod n)) [0..<ring_count n t h]"
  proof (intro map_cong refl)
    fix k assume "k \<in> set [0..<ring_count n t h]"
    then have "(t + k) mod n \<noteq> h"
      using assms ring_slot_not_head [of t n h k] by simp
    then show "buf[h := v] ! ((t + k) mod n) = buf ! ((t + k) mod n)"
      by (simp add: nth_list_update_neq)
  qed
  have new: "buf[h := v] ! ((t + ring_count n t h) mod n) = v"
    using assms by (simp add: ring_slot_head)
  show ?thesis
    unfolding ring_contents_def cnt using old new by simp
qed

lemma ring_contents_pop:
  assumes "t < n" "h < n" "t \<noteq> h"
  shows "ring_contents buf n t h = buf ! t # ring_contents buf n (Suc t mod n) h"
proof -
  have cnt: "ring_count n t h = Suc (ring_count n (Suc t mod n) h)"
    using assms by (rule ring_count_pop)
  have shift: "\<And>k. (Suc t mod n + k) mod n = Suc (t + k) mod n"
    by (simp add: mod_add_left_eq)
  have "[0..<Suc (ring_count n (Suc t mod n) h)]
      = 0 # map Suc [0..<ring_count n (Suc t mod n) h]"
    by (simp add: upt_conv_Cons map_Suc_upt del: upt_Suc)
  then show ?thesis
    unfolding ring_contents_def cnt using assms by (simp add: shift comp_def del: upt_Suc)
qed

section \<open>Indices as machine words\<close>

lemma bind_result_Inr [simp]: "bind_result (Inr x) f = f x"
  by (simp add: bind_result_def)

lemma bind_result_Inl [simp]: "bind_result (Inl e) f = Inl e"
  by (simp add: bind_result_def)

lemma unat_next:
  fixes i n :: uint16_t
  assumes "n \<noteq> 0"
  shows "unat (of_nat (Suc (unat i) mod unat n) :: uint16_t) = Suc (unat i) mod unat n"
proof -
  have "0 < unat n" using assms by (simp add: unat_gt_0)
  then show ?thesis by (rule uno_simps(1))
qed

lemma next_index_Inr:
  "n \<noteq> 0 \<Longrightarrow> next_index i n = Inr (of_nat (Suc (unat i) mod unat n))"
  by (simp add: next_index_def)

lemma next_eq_iff:
  fixes i n t :: uint16_t
  assumes "n \<noteq> 0"
  shows "(of_nat (Suc (unat i) mod unat n) = t) \<longleftrightarrow> Suc (unat i) mod unat n = unat t"
  using unat_next [OF assms, of i] by (auto simp: word_unat_eq_iff)

lemma next_less:
  fixes i n :: uint16_t
  assumes "n \<noteq> 0"
  shows "(of_nat (Suc (unat i) mod unat n) :: uint16_t) < n"
  using assms by (simp add: word_less_nat_alt unat_next unat_gt_0)

lemma rx_okD:
  assumes "rx_ok s"
  shows "rxSize s \<noteq> 0" "0 < unat (rxSize s)" "length (rxBuf s) = unat (rxSize s)"
    "unat (rxHead s) < unat (rxSize s)" "unat (rxTail s) < unat (rxSize s)"
  using assms by (simp_all add: rx_ok_def word_less_nat_alt unat_gt_0)

lemma tx_okD:
  assumes "tx_ok s"
  shows "txSize s \<noteq> 0" "0 < unat (txSize s)" "length (txBuf s) = unat (txSize s)"
    "unat (txHead s) < unat (txSize s)" "unat (txTail s) < unat (txSize s)"
  using assms by (simp_all add: tx_ok_def word_less_nat_alt unat_gt_0)

lemma rx_count_le: "rx_ok s \<Longrightarrow> length (rx_contents s) \<le> unat (rxSize s) - 1"
  using ring_count_less [of "unat (rxSize s)" "unat (rxTail s)" "unat (rxHead s)"]
  by (simp add: rx_contents_def rx_okD)

lemma tx_count_le: "tx_ok s \<Longrightarrow> length (tx_contents s) \<le> unat (txSize s) - 1"
  using ring_count_less [of "unat (txSize s)" "unat (txTail s)" "unat (txHead s)"]
  by (simp add: tx_contents_def tx_okD)

lemma rx_full_iff:
  assumes "rx_ok s"
  shows "(of_nat (Suc (unat (rxHead s)) mod unat (rxSize s)) = rxTail s) \<longleftrightarrow> rx_free s = 0"
proof -
  have "(Suc (unat (rxHead s)) mod unat (rxSize s) = unat (rxTail s))
      \<longleftrightarrow> length (rx_contents s) = unat (rxSize s) - 1"
    using assms by (simp add: rx_contents_def ring_full_iff rx_okD)
  then show ?thesis
    using rx_count_le [OF assms] assms by (auto simp: next_eq_iff rx_okD rx_free_def)
qed

lemma tx_full_iff:
  assumes "tx_ok s"
  shows "(of_nat (Suc (unat (txHead s)) mod unat (txSize s)) = txTail s) \<longleftrightarrow> tx_free s = 0"
proof -
  have "(Suc (unat (txHead s)) mod unat (txSize s) = unat (txTail s))
      \<longleftrightarrow> length (tx_contents s) = unat (txSize s) - 1"
    using assms by (simp add: tx_contents_def ring_full_iff tx_okD)
  then show ?thesis
    using tx_count_le [OF assms] assms by (auto simp: next_eq_iff tx_okD tx_free_def)
qed

lemma rx_full_nat_iff:
  assumes "rx_ok s"
  shows "Suc (unat (rxHead s)) mod unat (rxSize s) = unat (rxTail s) \<longleftrightarrow> rx_free s = 0"
  using rx_full_iff [OF assms] rx_okD(1) [OF assms] by (simp add: next_eq_iff)

lemma tx_full_nat_iff:
  assumes "tx_ok s"
  shows "Suc (unat (txHead s)) mod unat (txSize s) = unat (txTail s) \<longleftrightarrow> tx_free s = 0"
  using tx_full_iff [OF assms] tx_okD(1) [OF assms] by (simp add: next_eq_iff)

lemma rx_empty_iff: "rx_ok s \<Longrightarrow> rxTail s = rxHead s \<longleftrightarrow> rx_contents s = []"
  using ring_empty_iff [of "unat (rxTail s)" "unat (rxSize s)" "unat (rxHead s)"]
  by (simp add: rx_contents_def ring_contents_def rx_okD word_unat_eq_iff)

lemma tx_empty_iff: "tx_ok s \<Longrightarrow> txTail s = txHead s \<longleftrightarrow> tx_contents s = []"
  using ring_empty_iff [of "unat (txTail s)" "unat (txSize s)" "unat (txHead s)"]
  by (simp add: tx_contents_def ring_contents_def tx_okD word_unat_eq_iff)

text \<open>The state after an accepted inbound push.\<close>

lemma rx_pushed:
  assumes ok: "rx_ok s" and free: "rx_free s \<noteq> 0"
    and s': "s' = s\<lparr>rxBuf := (rxBuf s)[unat (rxHead s) := v],
                    rxHead := of_nat (Suc (unat (rxHead s)) mod unat (rxSize s))\<rparr>"
  shows "rx_ok s'" and "rx_contents s' = rx_contents s @ [v]"
    and "rx_free s' = rx_free s - 1"
proof -
  have nf: "Suc (unat (rxHead s)) mod unat (rxSize s) \<noteq> unat (rxTail s)"
    using rx_full_iff [OF ok] free by (simp add: next_eq_iff rx_okD [OF ok])
  show "rx_ok s'"
    using ok by (simp add: s' rx_ok_def next_less)
  show c: "rx_contents s' = rx_contents s @ [v]"
    using ring_contents_push [of "unat (rxTail s)" "unat (rxSize s)" "unat (rxHead s)" "rxBuf s" v]
      nf rx_okD [OF ok]
    by (simp add: s' rx_contents_def unat_next)
  show "rx_free s' = rx_free s - 1"
    using c by (simp add: rx_free_def s')
qed

lemma tx_pushed:
  assumes ok: "tx_ok s" and free: "tx_free s \<noteq> 0"
    and s': "s' = s\<lparr>txBuf := (txBuf s)[unat (txHead s) := v],
                    txHead := of_nat (Suc (unat (txHead s)) mod unat (txSize s))\<rparr>"
  shows "tx_ok s'" and "tx_contents s' = tx_contents s @ [v]"
    and "tx_free s' = tx_free s - 1"
proof -
  have nf: "Suc (unat (txHead s)) mod unat (txSize s) \<noteq> unat (txTail s)"
    using tx_full_iff [OF ok] free by (simp add: next_eq_iff tx_okD [OF ok])
  show "tx_ok s'"
    using ok by (simp add: s' tx_ok_def next_less)
  show c: "tx_contents s' = tx_contents s @ [v]"
    using ring_contents_push [of "unat (txTail s)" "unat (txSize s)" "unat (txHead s)" "txBuf s" v]
      nf tx_okD [OF ok]
    by (simp add: s' tx_contents_def unat_next)
  show "tx_free s' = tx_free s - 1"
    using c by (simp add: tx_free_def s')
qed

text \<open>The state after a pop.\<close>

lemma rx_popped:
  assumes ok: "rx_ok s" and ne: "rxTail s \<noteq> rxHead s"
    and s': "s' = s\<lparr>rxTail := of_nat (Suc (unat (rxTail s)) mod unat (rxSize s))\<rparr>"
  shows "rx_ok s'" and "rx_contents s = rxBuf s ! unat (rxTail s) # rx_contents s'"
    and "rx_free s' = Suc (rx_free s)"
proof -
  show "rx_ok s'"
    using ok by (simp add: s' rx_ok_def next_less)
  show c: "rx_contents s = rxBuf s ! unat (rxTail s) # rx_contents s'"
    using ring_contents_pop [of "unat (rxTail s)" "unat (rxSize s)" "unat (rxHead s)" "rxBuf s"]
      ne rx_okD [OF ok]
    by (simp add: s' rx_contents_def unat_next word_unat_eq_iff)
  show "rx_free s' = Suc (rx_free s)"
    using c rx_count_le [OF ok] by (simp add: rx_free_def s')
qed

lemma tx_popped:
  assumes ok: "tx_ok s" and ne: "txTail s \<noteq> txHead s"
    and s': "s' = s\<lparr>txTail := of_nat (Suc (unat (txTail s)) mod unat (txSize s))\<rparr>"
  shows "tx_ok s'" and "tx_contents s = txBuf s ! unat (txTail s) # tx_contents s'"
    and "tx_free s' = Suc (tx_free s)"
proof -
  show "tx_ok s'"
    using ok by (simp add: s' tx_ok_def next_less)
  show c: "tx_contents s = txBuf s ! unat (txTail s) # tx_contents s'"
    using ring_contents_pop [of "unat (txTail s)" "unat (txSize s)" "unat (txHead s)" "txBuf s"]
      ne tx_okD [OF ok]
    by (simp add: s' tx_contents_def unat_next word_unat_eq_iff)
  show "tx_free s' = Suc (tx_free s)"
    using c tx_count_le [OF ok] by (simp add: tx_free_def s')
qed

section \<open>The member functions on well-formed rings\<close>

lemma load_Inr: "unat i < length buf \<Longrightarrow> load buf i = Inr (buf ! unat i)"
  by (simp add: load_def)

lemma store_Inr: "unat i < length buf \<Longrightarrow> store buf i v = Inr (buf[unat i := v])"
  by (simp add: store_def)

lemma rearm_eq:
  "(case HAL_UART_Receive_IT h of
      (st, h1) \<Rightarrow>
        if st \<noteq> HAL_OK
        then Inr (s', snd (HAL_UART_Receive_IT (snd (HAL_UART_AbortReceive (HAL_UNLOCK h1)))))
        else Inr (s', h1))
   = Inr (s',
       if Lock h = HAL_LOCKED \<or> RxState h \<noteq> HAL_UART_STATE_READY
       then h\<lparr>Lock := HAL_UNLOCKED, RxState := HAL_UART_STATE_BUSY_RX, rxOutstanding := 1,
              calls := calls h @ [Receive_IT HAL_BUSY, Unlock, AbortReceive, Receive_IT HAL_OK]\<rparr>
       else h\<lparr>RxState := HAL_UART_STATE_BUSY_RX, rxOutstanding := rxOutstanding h + 1,
              calls := calls h @ [Receive_IT HAL_OK]\<rparr>)"
  by (simp add: HAL_UART_Receive_IT_def HAL_UART_AbortReceive_def HAL_UNLOCK_def)

lemma handleRxComplete_eq:
  assumes ok: "rx_ok s"
  shows "handleRxComplete s h =
    Inr (if rx_free s = 0 then s
         else s\<lparr>rxBuf := (rxBuf s)[unat (rxHead s) := rxTmp s],
                rxHead := of_nat (Suc (unat (rxHead s)) mod unat (rxSize s))\<rparr>,
         if Lock h = HAL_LOCKED \<or> RxState h \<noteq> HAL_UART_STATE_READY
         then h\<lparr>Lock := HAL_UNLOCKED, RxState := HAL_UART_STATE_BUSY_RX, rxOutstanding := 1,
                calls := calls h @ [Receive_IT HAL_BUSY, Unlock, AbortReceive, Receive_IT HAL_OK]\<rparr>
         else h\<lparr>RxState := HAL_UART_STATE_BUSY_RX, rxOutstanding := rxOutstanding h + 1,
                calls := calls h @ [Receive_IT HAL_OK]\<rparr>)"
  unfolding handleRxComplete_def
  using rx_full_iff [OF ok] rx_okD [OF ok]
  by (simp add: next_index_Inr store_Inr rearm_eq del: One_nat_def)

lemma read_eq:
  assumes ok: "rx_ok s"
  shows "read s =
    Inr (if rxTail s = rxHead s then (- 1, s)
         else (uint (rxBuf s ! unat (rxTail s)),
               s\<lparr>rxTail := of_nat (Suc (unat (rxTail s)) mod unat (rxSize s))\<rparr>))"
  unfolding read_def using rx_okD [OF ok]
  by (simp add: next_index_Inr load_Inr)

lemma handleTxComplete_eq:
  assumes ok: "tx_ok s"
  shows "handleTxComplete s h =
    Inr (if txTail s = txHead s then (s, h)
         else (s\<lparr>txTail := of_nat (Suc (unat (txTail s)) mod unat (txSize s))\<rparr>,
               snd (HAL_UART_Transmit_IT h (txBuf s ! unat (txTail s)))))"
  unfolding handleTxComplete_def using tx_okD [OF ok]
  by (simp add: next_index_Inr load_Inr)

lemma startTxInterrupt_eq:
  assumes ok: "tx_ok s"
  shows "startTxInterrupt s h =
    Inr (if txTail s = txHead s then (s, h)
         else (s\<lparr>txTail := of_nat (Suc (unat (txTail s)) mod unat (txSize s))\<rparr>,
               snd (HAL_UART_Transmit_IT h (txBuf s ! unat (txTail s)))))"
  unfolding startTxInterrupt_def using tx_okD [OF ok]
  by (simp add: next_index_Inr load_Inr)

lemma write_byte_full:
  assumes "txSize s \<noteq> 0"
    and "Suc (unat (txHead s)) mod unat (txSize s) = unat (txTail s)"
  shows "write_byte s h b = Inr (- 1, s, h)"
  unfolding write_byte_def using assms by (simp add: next_index_Inr next_eq_iff)

lemma write_byte_busy:
  assumes ok: "tx_ok s" and free: "tx_free s \<noteq> 0" and busy: "gState h \<noteq> HAL_UART_STATE_READY"
  shows "write_byte s h b =
    Inr (1, s\<lparr>txBuf := (txBuf s)[unat (txHead s) := b],
               txHead := of_nat (Suc (unat (txHead s)) mod unat (txSize s))\<rparr>, h)"
  unfolding write_byte_def using tx_full_iff [OF ok] tx_okD [OF ok] free busy
  by (simp add: next_index_Inr store_Inr)

lemma pushed_nonempty:
  assumes ok: "tx_ok s" and free: "tx_free s \<noteq> 0"
  shows "txTail s \<noteq> of_nat (Suc (unat (txHead s)) mod unat (txSize s))"
  using tx_full_iff [OF ok] free by auto

lemma write_byte_idle:
  assumes ok: "tx_ok s" and free: "tx_free s \<noteq> 0" and idle: "gState h = HAL_UART_STATE_READY"
  shows "write_byte s h b =
    Inr (1, s\<lparr>txBuf := (txBuf s)[unat (txHead s) := b],
               txHead := of_nat (Suc (unat (txHead s)) mod unat (txSize s)),
               txTail := of_nat (Suc (unat (txTail s)) mod unat (txSize s))\<rparr>,
         snd (HAL_UART_Transmit_IT h ((txBuf s)[unat (txHead s) := b] ! unat (txTail s))))"
proof -
  define s1 where "s1 = s\<lparr>txBuf := (txBuf s)[unat (txHead s) := b],
               txHead := of_nat (Suc (unat (txHead s)) mod unat (txSize s))\<rparr>"
  have ok1: "tx_ok s1"
    using tx_pushed(1) [OF ok free s1_def] .
  have ne: "txTail s1 \<noteq> txHead s1"
    using pushed_nonempty [OF ok free] by (simp add: s1_def)
  have "write_byte s h b =
      bind_result (startTxInterrupt s1 h) (\<lambda>(s', h'). Inr (1, s', h'))"
    unfolding write_byte_def s1_def using tx_full_iff [OF ok] tx_okD [OF ok] free idle
    by (simp add: next_index_Inr store_Inr)
  also have "\<dots> = Inr (1, s1\<lparr>txTail := of_nat (Suc (unat (txTail s1)) mod unat (txSize s1))\<rparr>,
         snd (HAL_UART_Transmit_IT h (txBuf s1 ! unat (txTail s1))))"
    using ne by (simp add: startTxInterrupt_eq [OF ok1])
  finally show ?thesis by (simp add: s1_def)
qed

section \<open>Runs of the inbound ring\<close>

lemma readable_len_count:
  assumes ok: "rx_ok s"
  shows "readable_len s = int (length (rx_contents s))"
proof -
  let ?h = "unat (rxHead s)" and ?t = "unat (rxTail s)" and ?n = "unat (rxSize s)"
  have b: "?h < ?n" "?t < ?n" using rx_okD [OF ok] by simp_all
  have c: "length (rx_contents s) = (if ?t \<le> ?h then ?h - ?t else ?h + ?n - ?t)"
    using b by (simp add: rx_contents_def ring_count_cases)
  have r: "readable_len s = (if ?h < ?t then int ?n - (int ?t - int ?h) else int ?h - int ?t)"
    unfolding readable_len_def word_less_nat_alt uint_nat ..
  show ?thesis
  proof (cases "?h < ?t")
    case True
    then show ?thesis using b c r by simp
  next
    case False
    then show ?thesis using b c r by simp
  qed
qed

lemma next_neq_self:
  assumes "2 \<le> n" "h < n"
  shows "Suc h mod n \<noteq> h"
  using assms by (auto simp: mod_twice_cases split: if_splits)

lemma next_word_neq_self:
  fixes i n :: uint16_t
  assumes "2 \<le> unat n" "i < n"
  shows "of_nat (Suc (unat i) mod unat n) \<noteq> i"
proof -
  have "n \<noteq> 0" using assms by auto
  then show ?thesis
    using next_neq_self [of "unat n" "unat i"] assms
    by (simp add: next_eq_iff word_less_nat_alt)
qed

lemma rx_ok_rxTmp [simp]: "rx_ok (s\<lparr>rxTmp := b\<rparr>) = rx_ok s"
  by (simp add: rx_ok_def)

lemma rx_contents_rxTmp [simp]: "rx_contents (s\<lparr>rxTmp := b\<rparr>) = rx_contents s"
  by (simp add: rx_contents_def)

lemma rx_free_rxTmp [simp]: "rx_free (s\<lparr>rxTmp := b\<rparr>) = rx_free s"
  by (simp add: rx_free_def)

lemma rx_step_invariant:
  assumes ok: "rx_ok (port r)" and big: "2 \<le> unat (rxSize (port r))"
    and fifo: "map uint (q @ committed r) = popped r @ map uint (rx_contents (port r))"
  shows "\<exists>r'. rx_step x r = Inr r' \<and> rx_ok (port r') \<and> rxSize (port r') = rxSize (port r)
           \<and> map uint (q @ committed r') = popped r' @ map uint (rx_contents (port r'))"
proof (cases x)
  case (Stage b)
  then show ?thesis using ok fifo by simp
next
  case RxComplete
  show ?thesis
  proof (cases "rx_free (port r) = 0")
    case True
    then show ?thesis using RxComplete ok fifo by (simp add: handleRxComplete_eq)
  next
    case False
    define s' where "s' = (port r)\<lparr>rxBuf := (rxBuf (port r))[unat (rxHead (port r)) := rxTmp (port r)],
        rxHead := of_nat (Suc (unat (rxHead (port r))) mod unat (rxSize (port r)))\<rparr>"
    note p = rx_pushed [OF ok False s'_def]
    have moved: "rxHead s' \<noteq> rxHead (port r)"
      using next_word_neq_self [OF big] ok by (simp add: s'_def rx_ok_def)
    have "rx_step x r = Inr (r\<lparr>port := s',
        uart := snd (projr (handleRxComplete (port r) (uart r))),
        committed := committed r @ [rxTmp (port r)]\<rparr>)"
      using RxComplete False moved by (simp add: handleRxComplete_eq [OF ok] s'_def)
    then show ?thesis using p fifo by (simp add: s'_def)
  qed
next
  case ReadByte
  show ?thesis
  proof (cases "rxTail (port r) = rxHead (port r)")
    case True
    then show ?thesis using ReadByte ok fifo by (simp add: read_eq)
  next
    case False
    define s' where "s' = (port r)\<lparr>rxTail := of_nat (Suc (unat (rxTail (port r))) mod unat (rxSize (port r)))\<rparr>"
    note p = rx_popped [OF ok False s'_def]
    have nonneg: "uint (rxBuf (port r) ! unat (rxTail (port r))) \<noteq> - 1"
      using uint_ge_0 [of "rxBuf (port r) ! unat (rxTail (port r))"] by linarith
    have "rx_step x r = Inr (r\<lparr>port := s',
        popped := popped r @ [uint (rxBuf (port r) ! unat (rxTail (port r)))]\<rparr>)"
      using ReadByte False nonneg by (simp add: read_eq [OF ok] s'_def)
    then show ?thesis using p fifo by (simp add: s'_def)
  qed
qed

lemma rx_run_invariant:
  assumes "rx_ok (port r)" and "2 \<le> unat (rxSize (port r))"
    and "map uint (q @ committed r) = popped r @ map uint (rx_contents (port r))"
  shows "\<exists>r'. rx_run_ops xs r = Inr r' \<and> rx_ok (port r') \<and> rxSize (port r') = rxSize (port r)
           \<and> map uint (q @ committed r') = popped r' @ map uint (rx_contents (port r'))"
  using assms
proof (induction xs arbitrary: r)
  case Nil
  then show ?case by simp
next
  case (Cons x xs)
  from rx_step_invariant [OF Cons.prems, of x] obtain r1 where
    s1: "rx_step x r = Inr r1" and ok1: "rx_ok (port r1)"
    and sz: "rxSize (port r1) = rxSize (port r)"
    and f1: "map uint (q @ committed r1) = popped r1 @ map uint (rx_contents (port r1))"
    by blast
  from Cons.IH [OF ok1 _ f1] Cons.prems(2) sz obtain r' where
    "rx_run_ops xs r1 = Inr r'" "rx_ok (port r')" "rxSize (port r') = rxSize (port r1)"
    "map uint (q @ committed r') = popped r' @ map uint (rx_contents (port r'))"
    by auto
  then show ?case using s1 sz by simp
qed

section \<open>Call logs and the length computation\<close>

lemma receive_requests_append [simp]:
  "receive_requests (xs @ ys) = receive_requests xs + receive_requests ys"
  by (induction xs rule: receive_requests.induct) simp_all

lemma transmitted_append [simp]:
  "transmitted (xs @ ys) = transmitted xs @ transmitted ys"
  by (induction xs rule: transmitted.induct) simp_all

lemma readable_len_mod:
  assumes "rxHead s < rxSize s" and "rxTail s < rxSize s"
  shows "readable_len s
    = (uint (rxHead s) - uint (rxTail s) + uint (rxSize s)) mod uint (rxSize s)"
proof -
  let ?h = "uint (rxHead s)" and ?t = "uint (rxTail s)" and ?n = "uint (rxSize s)"
  have b: "?h < ?n" "?t < ?n" "0 \<le> ?h" "0 \<le> ?t"
    using assms by (simp_all add: word_less_def)
  have r: "readable_len s = (if ?h < ?t then ?n - (?t - ?h) else ?h - ?t)"
    unfolding readable_len_def word_less_def ..
  show ?thesis
  proof (cases "?h < ?t")
    case True
    have "0 \<le> ?h - ?t + ?n" and "?h - ?t + ?n < ?n"
      using b uint_ge_0 [of "rxHead s"] True by linarith+
    then have "(?h - ?t + ?n) mod ?n = ?h - ?t + ?n"
      by (rule mod_pos_pos_trivial)
    then show ?thesis using True r by simp
  next
    case False
    have "0 \<le> ?h - ?t" and "?h - ?t < ?n"
      using b uint_ge_0 [of "rxTail s"] False by linarith+
    then have "(?h - ?t) mod ?n = ?h - ?t"
      by (rule mod_pos_pos_trivial)
    then have "(?h - ?t + ?n) mod ?n = ?h - ?t" by simp
    then show ?thesis using False r by simp
  qed
qed

section \<open>Enqueue and dequeue on the outbound ring\<close>

lemma Transmit_IT_calls:
  "\<exists>st. calls (snd (HAL_UART_Transmit_IT h d)) = calls h @ [Transmit_IT d st]"
  by (simp add: HAL_UART_Transmit_IT_def)

lemma Transmit_IT_transmitted [simp]:
  "transmitted (calls (snd (HAL_UART_Transmit_IT h d))) = transmitted (calls h) @ [d]"
  by (simp add: HAL_UART_Transmit_IT_def)

lemma tx_dequeue:
  assumes ok: "tx_ok s" and ne: "tx_contents s \<noteq> []"
    and s': "s' = s\<lparr>txTail := of_nat (Suc (unat (txTail s)) mod unat (txSize s))\<rparr>"
  shows "handleTxComplete s h = Inr (s', snd (HAL_UART_Transmit_IT h (hd (tx_contents s))))"
    and "startTxInterrupt s h = Inr (s', snd (HAL_UART_Transmit_IT h (hd (tx_contents s))))"
    and "tx_contents s' = tl (tx_contents s)" and "tx_ok s'"
    and "tx_free s' = Suc (tx_free s)"
proof -
  have t: "txTail s \<noteq> txHead s" using tx_empty_iff [OF ok] ne by simp
  note p = tx_popped [OF ok t s']
  show "handleTxComplete s h = Inr (s', snd (HAL_UART_Transmit_IT h (hd (tx_contents s))))"
    using t p(2) by (simp add: handleTxComplete_eq [OF ok] s')
  show "startTxInterrupt s h = Inr (s', snd (HAL_UART_Transmit_IT h (hd (tx_contents s))))"
    using t p(2) by (simp add: startTxInterrupt_eq [OF ok] s')
  show "tx_contents s' = tl (tx_contents s)" using p(2) by simp
  show "tx_ok s'" by (rule p(1))
  show "tx_free s' = Suc (tx_free s)" by (rule p(3))
qed

lemma tx_no_dequeue:
  assumes ok: "tx_ok s" and e: "tx_contents s = []"
  shows "handleTxComplete s h = Inr (s, h)" and "startTxInterrupt s h = Inr (s, h)"
  using tx_empty_iff [OF ok] e
  by (simp_all add: handleTxComplete_eq [OF ok] startTxInterrupt_eq [OF ok])

lemma write_byte_rejected:
  assumes ok: "tx_ok s" and full: "tx_free s = 0"
  shows "write_byte s h b = Inr (- 1, s, h)"
  using tx_full_nat_iff [OF ok] full tx_okD(1) [OF ok] by (simp add: write_byte_full)

lemma write_byte_enqueue:
  assumes ok: "tx_ok s" and free: "tx_free s \<noteq> 0" and busy: "gState h \<noteq> HAL_UART_STATE_READY"
    and s': "s' = s\<lparr>txBuf := (txBuf s)[unat (txHead s) := b],
               txHead := of_nat (Suc (unat (txHead s)) mod unat (txSize s))\<rparr>"
  shows "write_byte s h b = Inr (1, s', h)" and "tx_ok s'"
    and "tx_contents s' = tx_contents s @ [b]" and "tx_free s' = tx_free s - 1"
  using write_byte_busy [OF ok free busy] tx_pushed [OF ok free s'] by (simp_all add: s')

lemma write_byte_kick:
  assumes ok: "tx_ok s" and free: "tx_free s \<noteq> 0" and idle: "gState h = HAL_UART_STATE_READY"
    and s': "s' = s\<lparr>txBuf := (txBuf s)[unat (txHead s) := b],
               txHead := of_nat (Suc (unat (txHead s)) mod unat (txSize s)),
               txTail := of_nat (Suc (unat (txTail s)) mod unat (txSize s))\<rparr>"
  shows "write_byte s h b
      = Inr (1, s', snd (HAL_UART_Transmit_IT h (hd (tx_contents s @ [b]))))"
    and "tx_ok s'" and "tx_contents s' = tl (tx_contents s @ [b])"
    and "tx_free s' = tx_free s"
proof -
  define s1 where "s1 = s\<lparr>txBuf := (txBuf s)[unat (txHead s) := b],
               txHead := of_nat (Suc (unat (txHead s)) mod unat (txSize s))\<rparr>"
  note p = tx_pushed [OF ok free s1_def]
  have ne: "txTail s1 \<noteq> txHead s1"
    using pushed_nonempty [OF ok free] by (simp add: s1_def)
  have s'1: "s' = s1\<lparr>txTail := of_nat (Suc (unat (txTail s1)) mod unat (txSize s1))\<rparr>"
    by (simp add: s' s1_def)
  note q = tx_popped [OF p(1) ne s'1]
  have hd: "txBuf s1 ! unat (txTail s1) = hd (tx_contents s @ [b])"
    using q(2) p(2) by (metis list.sel(1))
  show "write_byte s h b
      = Inr (1, s', snd (HAL_UART_Transmit_IT h (hd (tx_contents s @ [b]))))"
    using write_byte_idle [OF ok free idle, of b] hd by (simp add: s' s1_def)
  show "tx_ok s'" by (rule q(1))
  show "tx_contents s' = tl (tx_contents s @ [b])"
    using q(2) p(2) by (metis list.sel(3))
  show "tx_free s' = tx_free s"
    using q(3) p(3) free by simp
qed

section \<open>The multi-byte write loop\<close>

lemma u16_succ:
  fixes i len :: uint16_t
  assumes "i < len"
  shows "unat (i + 1) = Suc (unat i)"
proof -
  have "unat i < unat len" using assms by (simp add: word_less_nat_alt)
  moreover have "unat len < 2 ^ 16" using unsigned_less [of len] by simp
  ultimately have "unat i + 1 < 2 ^ 16" by simp
  then show ?thesis by (simp add: unat_word_ariths)
qed

lemma write_loop_done: "\<not> i < len \<Longrightarrow> write_loop s h data len i acc = Inr (acc, s, h)"
  by (subst write_loop.simps) simp

lemma write_loop_step:
  assumes "i < len" and "unat i < length data"
  shows "write_loop s h data len i acc =
    (case write_byte s h (data ! unat i) of
       Inl e \<Rightarrow> Inl e
     | Inr (r, s', h') \<Rightarrow>
         if r = 1 then write_loop s' h' data len (i + 1) (acc + 1) else Inr (acc, s', h'))"
  using assms by (subst write_loop.simps) (simp add: load_Inr)

lemma write_loop_busy:
  assumes "gState h \<noteq> HAL_UART_STATE_READY" and "unat len \<le> length data" and "tx_ok s"
  shows "\<exists>s'. write_loop s h data len i acc
           = Inr (acc + int (min (unat len - unat i) (tx_free s)), s', h)
     \<and> tx_ok s'
     \<and> tx_contents s'
         = tx_contents s @ take (min (unat len - unat i) (tx_free s)) (drop (unat i) data)"
  using assms
proof (induction s h data len i acc rule: write_loop.induct)
  case (1 s h data len i written)
  show ?case
  proof (cases "i < len")
    case False
    then have "unat len - unat i = 0" by (simp add: word_less_nat_alt)
    then show ?thesis using False "1.prems" by (simp add: write_loop_done)
  next
    case True
    then have lt: "unat i < unat len" by (simp add: word_less_nat_alt)
    then have inb: "unat i < length data" using "1.prems" by simp
    note step = write_loop_step [OF True inb, of s h written]
    show ?thesis
    proof (cases "tx_free s = 0")
      case True
      then show ?thesis
        using step "1.prems" by (simp add: write_byte_rejected)
    next
      case False
      define s1 where "s1 = s\<lparr>txBuf := (txBuf s)[unat (txHead s) := data ! unat i],
               txHead := of_nat (Suc (unat (txHead s)) mod unat (txSize s))\<rparr>"
      note w = write_byte_enqueue [OF "1.prems"(3) False "1.prems"(1) s1_def]
      have ld: "load data i = Inr (data ! unat i)" using inb by (simp add: load_Inr)
      from "1.IH" [OF True ld w(1) refl refl refl "1.prems"(1,2) w(2)] obtain s' where
        rec: "write_loop s1 h data len (i + 1) (written + 1)
           = Inr (written + 1 + int (min (unat len - unat (i + 1)) (tx_free s1)), s', h)"
        and ok': "tx_ok s'"
        and c': "tx_contents s'
         = tx_contents s1 @ take (min (unat len - unat (i + 1)) (tx_free s1)) (drop (unat (i + 1)) data)"
        by auto
      have n: "unat (i + 1) = Suc (unat i)" by (rule u16_succ [OF True])
      have m: "min (unat len - unat i) (tx_free s)
          = Suc (min (unat len - Suc (unat i)) (tx_free s - 1))"
        using lt False by simp
      have "write_loop s h data len i written
          = Inr (written + int (min (unat len - unat i) (tx_free s)), s', h)"
        using step w(1) rec by (simp add: n m w(4))
      moreover have "tx_contents s'
         = tx_contents s @ take (min (unat len - unat i) (tx_free s)) (drop (unat i) data)"
        using c' inb by (simp add: n m w(3,4) Cons_nth_drop_Suc [symmetric])
      ultimately show ?thesis using ok' by blast
    qed
  qed
qed

lemma Transmit_IT_accepts:
  assumes "gState h = HAL_UART_STATE_READY" and "Lock h = HAL_UNLOCKED"
  shows "gState (snd (HAL_UART_Transmit_IT h d)) = HAL_UART_STATE_BUSY_TX"
    and "fst (HAL_UART_Transmit_IT h d) = HAL_OK"
  using assms by (simp_all add: HAL_UART_Transmit_IT_def)

lemma write_loop_idle:
  assumes idle: "gState h = HAL_UART_STATE_READY" and unl: "Lock h = HAL_UNLOCKED"
    and len: "unat len \<le> length data" and ok: "tx_ok s"
    and free: "0 < tx_free s" and pos: "0 < len"
  shows "\<exists>s'. write_loop s h data len 0 0
           = Inr (int (min (unat len) (tx_free s + 1)), s',
                  snd (HAL_UART_Transmit_IT h (hd (tx_contents s @ [data ! 0]))))
     \<and> tx_ok s'
     \<and> tx_contents s' = tl (tx_contents s @ take (min (unat len) (tx_free s + 1)) data)"
proof -
  let ?h2 = "snd (HAL_UART_Transmit_IT h (hd (tx_contents s @ [data ! 0])))"
  define s2 where "s2 = s\<lparr>txBuf := (txBuf s)[unat (txHead s) := data ! 0],
               txHead := of_nat (Suc (unat (txHead s)) mod unat (txSize s)),
               txTail := of_nat (Suc (unat (txTail s)) mod unat (txSize s))\<rparr>"
  have lpos: "0 < unat len" using pos by (simp add: word_less_nat_alt)
  then have inb: "unat (0 :: uint16_t) < length data" using len by (cases data) simp_all
  have f: "tx_free s \<noteq> 0" using free by simp
  note k = write_byte_kick [OF ok f idle s2_def]
  have busy: "gState ?h2 \<noteq> HAL_UART_STATE_READY"
    using Transmit_IT_accepts(1) [OF idle unl] by simp
  from write_loop_busy [OF busy len k(2), of "0 + 1" "0 + 1"] obtain s' where
    rec: "write_loop s2 ?h2 data len (0 + 1) (0 + 1)
       = Inr (0 + 1 + int (min (unat len - unat (0 + 1 :: uint16_t)) (tx_free s2)), s', ?h2)"
    and ok': "tx_ok s'"
    and c': "tx_contents s' = tx_contents s2
        @ take (min (unat len - unat (0 + 1 :: uint16_t)) (tx_free s2)) (drop (unat (0 + 1 :: uint16_t)) data)"
    by blast
  have one: "unat (0 + 1 :: uint16_t) = 1" by simp
  have m: "min (unat len) (tx_free s + 1) = Suc (min (unat len - 1) (tx_free s))"
    using lpos by simp
  have d: "data \<noteq> []" using inb by auto
  have tk: "take (min (unat len) (tx_free s + 1)) data
      = data ! 0 # take (min (unat len - 1) (tx_free s)) (drop 1 data)"
    unfolding m using d by (cases data) simp_all
  have "write_loop s h data len 0 0 = write_loop s2 ?h2 data len (0 + 1) (0 + 1)"
    unfolding write_loop_step [OF pos inb, of s h 0] using k(1) by simp
  also have "\<dots> = Inr (0 + 1 + int (min (unat len - 1) (tx_free s)), s', ?h2)"
    unfolding rec one k(4) ..
  also have "0 + 1 + int (min (unat len - 1) (tx_free s)) = int (min (unat len) (tx_free s + 1))"
    unfolding m by simp
  finally have r: "write_loop s h data len 0 0
      = Inr (int (min (unat len) (tx_free s + 1)), s', ?h2)" .
  have "tx_contents s' = tl (tx_contents s @ [data ! 0])
      @ take (min (unat len - 1) (tx_free s)) (drop 1 data)"
    using c' unfolding one k(3,4) .
  then have "tx_contents s' = tl (tx_contents s @ take (min (unat len) (tx_free s + 1)) data)"
    unfolding tk by (cases "tx_contents s") simp_all
  then show ?thesis using r ok' by blast
qed

lemma five_slot_facts:
  "tx_ok five_slot_port" "tx_contents five_slot_port = []" "tx_free five_slot_port = 4"
  by (simp_all add: tx_ok_def tx_free_def tx_contents_def ring_contents_def ring_count_def
      five_slot_port_def init_fields_def new_uint8_array_def)

section \<open>First in, first out\<close>

lemma rx_run_ops_append:
  "rx_run_ops (xs @ ys) r = bind_result (rx_run_ops xs r) (rx_run_ops ys)"
  by (induction xs arbitrary: r) (simp_all add: bind_result_def split: sum.splits)

lemma tx_run_ops_append:
  "tx_run_ops (xs @ ys) r = bind_result (tx_run_ops xs r) (tx_run_ops ys)"
  by (induction xs arbitrary: r) (simp_all add: bind_result_def split: sum.splits)

lemma rx_free_capacity:
  assumes "rx_ok s" and "0 < rx_free s"
  shows "2 \<le> unat (rxSize s)"
  using assms by (simp add: rx_free_def)

lemma rx_push_run:
  assumes ok: "rx_ok (port r)" and free: "0 < rx_free (port r)"
  shows "\<exists>r'. rx_run_ops [Stage b, RxComplete] r = Inr r' \<and> rx_ok (port r')
    \<and> rxSize (port r') = rxSize (port r)
    \<and> rx_contents (port r') = rx_contents (port r) @ [b]
    \<and> rx_free (port r') = rx_free (port r) - 1
    \<and> committed r' = committed r @ [b] \<and> popped r' = popped r"
proof -
  let ?s = "(port r)\<lparr>rxTmp := b\<rparr>"
  have ok1: "rx_ok ?s" and f1: "rx_free ?s \<noteq> 0" using ok free by simp_all
  define s' where "s' = ?s\<lparr>rxBuf := (rxBuf ?s)[unat (rxHead ?s) := rxTmp ?s],
      rxHead := of_nat (Suc (unat (rxHead ?s)) mod unat (rxSize ?s))\<rparr>"
  note p = rx_pushed [OF ok1 f1 s'_def]
  have big: "2 \<le> unat (rxSize ?s)" using rx_free_capacity [OF ok free] by simp
  have moved: "rxHead s' \<noteq> rxHead ?s"
    using next_word_neq_self [OF big] ok1 by (simp add: s'_def rx_ok_def)
  have "rx_run_ops [Stage b, RxComplete] r = Inr (r\<lparr>port := s',
        uart := snd (projr (handleRxComplete ?s (uart r))),
        committed := committed r @ [b]\<rparr>)"
    using f1 moved by (simp add: handleRxComplete_eq [OF ok1] s'_def)
  then show ?thesis using p by (simp add: s'_def)
qed

lemma rx_pushes_run:
  assumes "rx_ok (port r)" and "length bs \<le> rx_free (port r)"
  shows "\<exists>r'. rx_run_ops (concat (map (\<lambda>b. [Stage b, RxComplete]) bs)) r = Inr r'
    \<and> rx_ok (port r') \<and> rxSize (port r') = rxSize (port r)
    \<and> rx_contents (port r') = rx_contents (port r) @ bs
    \<and> committed r' = committed r @ bs \<and> popped r' = popped r"
  using assms
proof (induction bs arbitrary: r)
  case Nil
  then show ?case by simp
next
  case (Cons b bs)
  let ?rest = "concat (map (\<lambda>b. [Stage b, RxComplete]) bs)"
  from Cons.prems(2) have "0 < rx_free (port r)" by simp
  from rx_push_run [OF Cons.prems(1) this, of b] obtain r1 where
    s1: "rx_run_ops [Stage b, RxComplete] r = Inr r1" and ok1: "rx_ok (port r1)"
    and sz: "rxSize (port r1) = rxSize (port r)"
    and c1: "rx_contents (port r1) = rx_contents (port r) @ [b]"
    and f1: "rx_free (port r1) = rx_free (port r) - 1"
    and m1: "committed r1 = committed r @ [b]" "popped r1 = popped r"
    by blast
  have "length bs \<le> rx_free (port r1)" using Cons.prems(2) f1 by simp
  from Cons.IH [OF ok1 this] obtain r' where
    s2: "rx_run_ops ?rest r1 = Inr r'"
    and ok': "rx_ok (port r')" and sz': "rxSize (port r') = rxSize (port r1)"
    and c': "rx_contents (port r') = rx_contents (port r1) @ bs"
    and m': "committed r' = committed r1 @ bs" "popped r' = popped r1"
    by blast
  have "concat (map (\<lambda>b. [Stage b, RxComplete]) (b # bs)) = [Stage b, RxComplete] @ ?rest"
    by simp
  then have "rx_run_ops (concat (map (\<lambda>b. [Stage b, RxComplete]) (b # bs))) r
      = bind_result (rx_run_ops [Stage b, RxComplete] r) (rx_run_ops ?rest)"
    by (simp only: rx_run_ops_append)
  also have "\<dots> = Inr r'" unfolding s1 bind_result_Inr by (rule s2)
  finally have run: "rx_run_ops (concat (map (\<lambda>b. [Stage b, RxComplete]) (b # bs))) r = Inr r'" .
  have "rx_contents (port r') = rx_contents (port r) @ b # bs"
    and "committed r' = committed r @ b # bs" and "popped r' = popped r"
    and "rxSize (port r') = rxSize (port r)"
    using c' c1 m' m1 sz sz' by simp_all
  with run ok' show ?case by blast
qed

lemma rx_pops_run:
  assumes "rx_ok (port r)" and "n \<le> length (rx_contents (port r))"
  shows "\<exists>r'. rx_run_ops (replicate n ReadByte) r = Inr r'
    \<and> rx_ok (port r') \<and> rx_contents (port r') = drop n (rx_contents (port r))
    \<and> popped r' = popped r @ map uint (take n (rx_contents (port r)))
    \<and> committed r' = committed r"
  using assms
proof (induction n arbitrary: r)
  case 0
  then show ?case by simp
next
  case (Suc n)
  then obtain x xs where c: "rx_contents (port r) = x # xs"
    by (cases "rx_contents (port r)") simp_all
  then have ne: "rxTail (port r) \<noteq> rxHead (port r)"
    using rx_empty_iff [OF Suc.prems(1)] by simp
  define s' where "s' = (port r)\<lparr>rxTail := of_nat (Suc (unat (rxTail (port r))) mod unat (rxSize (port r)))\<rparr>"
  note p = rx_popped [OF Suc.prems(1) ne s'_def]
  have x: "rxBuf (port r) ! unat (rxTail (port r)) = x" and xs: "rx_contents s' = xs"
    using p(2) c by simp_all
  have nonneg: "uint x \<noteq> - 1" using uint_ge_0 [of x] by linarith
  define r1 where "r1 = r\<lparr>port := s', popped := popped r @ [uint x]\<rparr>"
  have s1: "rx_step ReadByte r = Inr r1"
    using ne nonneg x by (simp add: read_eq [OF Suc.prems(1)] s'_def r1_def)
  have ok1: "rx_ok (port r1)" and n1: "n \<le> length (rx_contents (port r1))"
    using p(1) xs Suc.prems(2) c by (simp_all add: r1_def)
  from Suc.IH [OF ok1 n1] obtain r' where
    "rx_run_ops (replicate n ReadByte) r1 = Inr r'" "rx_ok (port r')"
    "rx_contents (port r') = drop n (rx_contents (port r1))"
    "popped r' = popped r1 @ map uint (take n (rx_contents (port r1)))"
    "committed r' = committed r1"
    by blast
  then show ?case using s1 c xs by (simp add: r1_def)
qed

lemma rx_fifo_three:
  assumes ok: "rx_ok s" and free: "3 \<le> rx_free s"
  shows "\<exists>r. rx_run_ops [Stage a, RxComplete, Stage b, RxComplete, Stage c, RxComplete,
                         ReadByte, ReadByte, ReadByte]
           \<lparr>port = s, uart = h, committed = [], popped = []\<rparr> = Inr r
    \<and> committed r = [a, b, c]
    \<and> popped r = map uint (take 3 (rx_contents s @ [a, b, c]))"
proof -
  let ?r0 = "\<lparr>port = s, uart = h, committed = [], popped = []\<rparr>"
  have "rx_ok (port ?r0)" "length [a, b, c] \<le> rx_free (port ?r0)"
    using ok free by simp_all
  from rx_pushes_run [OF this] obtain r1 where
    s1: "rx_run_ops [Stage a, RxComplete, Stage b, RxComplete, Stage c, RxComplete] ?r0 = Inr r1"
    and ok1: "rx_ok (port r1)" and c1: "rx_contents (port r1) = rx_contents s @ [a, b, c]"
    and m1: "committed r1 = [a, b, c]" "popped r1 = []"
    by auto
  have "3 \<le> length (rx_contents (port r1))" using c1 by simp
  from rx_pops_run [OF ok1 this] obtain r where
    s2: "rx_run_ops (replicate 3 ReadByte) r1 = Inr r"
    and m2: "popped r = popped r1 @ map uint (take 3 (rx_contents (port r1)))"
      "committed r = committed r1"
    by blast
  have "rx_run_ops ([Stage a, RxComplete, Stage b, RxComplete, Stage c, RxComplete]
        @ replicate 3 ReadByte) ?r0 = Inr r"
    unfolding rx_run_ops_append using s1 s2 by simp
  then have "rx_run_ops [Stage a, RxComplete, Stage b, RxComplete, Stage c, RxComplete,
                         ReadByte, ReadByte, ReadByte] ?r0 = Inr r"
    by (simp add: numeral_3_eq_3)
  then show ?thesis using m1 m2 c1 by simp
qed

lemma uart_tx_done_calls [simp]: "calls (uart_tx_done h) = calls h"
  by (simp add: uart_tx_done_def)

lemma tx_step_invariant:
  assumes ok: "tx_ok (tport r)"
    and fifo: "transmitted (calls (tuart r)) @ tx_contents (tport r) = l @ accepted r"
  shows "\<exists>r'. tx_step x r = Inr r' \<and> tx_ok (tport r')
    \<and> transmitted (calls (tuart r')) @ tx_contents (tport r') = l @ accepted r'"
proof (cases x)
  case (WriteByte b)
  show ?thesis
  proof (cases "tx_free (tport r) = 0")
    case True
    then show ?thesis
      using WriteByte ok fifo by (simp add: write_byte_rejected)
  next
    case False
    show ?thesis
    proof (cases "gState (tuart r) = HAL_UART_STATE_READY")
      case busy: False
      define s' where "s' = (tport r)\<lparr>txBuf := (txBuf (tport r))[unat (txHead (tport r)) := b],
               txHead := of_nat (Suc (unat (txHead (tport r))) mod unat (txSize (tport r)))\<rparr>"
      note w = write_byte_enqueue [OF ok False busy s'_def]
      have "tx_step x r = Inr (r\<lparr>tport := s', tuart := tuart r, accepted := accepted r @ [b]\<rparr>)"
        using WriteByte w(1) by simp
      moreover have "transmitted (calls (tuart r)) @ tx_contents s' = l @ accepted r @ [b]"
        using fifo w(3) by simp
      ultimately show ?thesis using w(2) by simp
    next
      case idle: True
      define s' where "s' = (tport r)\<lparr>txBuf := (txBuf (tport r))[unat (txHead (tport r)) := b],
               txHead := of_nat (Suc (unat (txHead (tport r))) mod unat (txSize (tport r))),
               txTail := of_nat (Suc (unat (txTail (tport r))) mod unat (txSize (tport r)))\<rparr>"
      let ?h' = "snd (HAL_UART_Transmit_IT (tuart r) (hd (tx_contents (tport r) @ [b])))"
      note k = write_byte_kick [OF ok False idle s'_def]
      have "tx_step x r = Inr (r\<lparr>tport := s', tuart := ?h', accepted := accepted r @ [b]\<rparr>)"
        using WriteByte k(1) by simp
      moreover have "transmitted (calls ?h') @ tx_contents s' = l @ accepted r @ [b]"
      proof -
        have "transmitted (calls ?h') @ tx_contents s'
            = transmitted (calls (tuart r))
              @ (hd (tx_contents (tport r) @ [b]) # tl (tx_contents (tport r) @ [b]))"
          using k(3) by simp
        also have "\<dots> = transmitted (calls (tuart r)) @ tx_contents (tport r) @ [b]"
          by simp
        finally show ?thesis using fifo by simp
      qed
      ultimately show ?thesis using k(2) by simp
    qed
  qed
next
  case TxComplete
  show ?thesis
  proof (cases "tx_contents (tport r) = []")
    case True
    then show ?thesis
      using TxComplete ok fifo tx_no_dequeue(1) [OF ok True] by simp
  next
    case False
    define s' where "s' = (tport r)\<lparr>txTail := of_nat (Suc (unat (txTail (tport r))) mod unat (txSize (tport r)))\<rparr>"
    let ?h' = "snd (HAL_UART_Transmit_IT (uart_tx_done (tuart r)) (hd (tx_contents (tport r))))"
    note d = tx_dequeue [OF ok False s'_def]
    have "tx_step x r = Inr (r\<lparr>tport := s', tuart := ?h'\<rparr>)"
      using TxComplete d(1) by simp
    moreover have "transmitted (calls ?h') @ tx_contents s' = l @ accepted r"
      using fifo d(3) False by simp
    ultimately show ?thesis using d(4) by simp
  qed
qed

lemma tx_run_invariant:
  assumes "tx_ok (tport r)"
    and "transmitted (calls (tuart r)) @ tx_contents (tport r) = l @ accepted r"
  shows "\<exists>r'. tx_run_ops xs r = Inr r' \<and> tx_ok (tport r')
    \<and> transmitted (calls (tuart r')) @ tx_contents (tport r') = l @ accepted r'"
  using assms
proof (induction xs arbitrary: r)
  case Nil
  then show ?case by simp
next
  case (Cons x xs)
  from tx_step_invariant [OF Cons.prems, of x] obtain r1 where
    s1: "tx_step x r = Inr r1" and ok1: "tx_ok (tport r1)"
    and f1: "transmitted (calls (tuart r1)) @ tx_contents (tport r1) = l @ accepted r1"
    by blast
  from Cons.IH [OF ok1 f1] obtain r' where
    "tx_run_ops xs r1 = Inr r'" "tx_ok (tport r')"
    "transmitted (calls (tuart r')) @ tx_contents (tport r') = l @ accepted r'"
    by blast
  then show ?case using s1 by simp
qed

lemma tx_writes_busy_run:
  assumes "tx_ok (tport r)" and "gState (tuart r) \<noteq> HAL_UART_STATE_READY"
    and "length bs \<le> tx_free (tport r)"
  shows "\<exists>r'. tx_run_ops (map WriteByte bs) r = Inr r' \<and> tx_ok (tport r')
    \<and> tuart r' = tuart r
    \<and> tx_contents (tport r') = tx_contents (tport r) @ bs
    \<and> accepted r' = accepted r @ bs"
  using assms
proof (induction bs arbitrary: r)
  case Nil
  then show ?case by simp
next
  case (Cons b bs)
  from Cons.prems(3) have f: "tx_free (tport r) \<noteq> 0" by auto
  define s' where "s' = (tport r)\<lparr>txBuf := (txBuf (tport r))[unat (txHead (tport r)) := b],
               txHead := of_nat (Suc (unat (txHead (tport r))) mod unat (txSize (tport r)))\<rparr>"
  define r1 where "r1 = r\<lparr>tport := s', tuart := tuart r, accepted := accepted r @ [b]\<rparr>"
  note w = write_byte_enqueue [OF Cons.prems(1) f Cons.prems(2) s'_def]
  have s1: "tx_step (WriteByte b) r = Inr r1"
    using w(1) by (simp add: r1_def)
  have p1: "tx_ok (tport r1)" "gState (tuart r1) \<noteq> HAL_UART_STATE_READY"
    "length bs \<le> tx_free (tport r1)"
    using w(2,4) Cons.prems(2,3) by (simp_all add: r1_def)
  from Cons.IH [OF p1] obtain r' where
    s2: "tx_run_ops (map WriteByte bs) r1 = Inr r'" and ok': "tx_ok (tport r')"
    and u': "tuart r' = tuart r1"
    and c': "tx_contents (tport r') = tx_contents (tport r1) @ bs"
    and a': "accepted r' = accepted r1 @ bs"
    by blast
  have run: "tx_run_ops (map WriteByte (b # bs)) r = Inr r'"
    using s1 s2 by simp
  have "tuart r' = tuart r" "tx_contents (tport r') = tx_contents (tport r) @ b # bs"
    "accepted r' = accepted r @ b # bs"
    using u' c' a' w(3) by (simp_all add: r1_def)
  with run ok' show ?case by blast
qed

lemma tx_completes_run:
  assumes "tx_ok (tport r)" and "n \<le> length (tx_contents (tport r))"
  shows "\<exists>r'. tx_run_ops (replicate n TxComplete) r = Inr r' \<and> tx_ok (tport r')
    \<and> tx_contents (tport r') = drop n (tx_contents (tport r))
    \<and> transmitted (calls (tuart r'))
        = transmitted (calls (tuart r)) @ take n (tx_contents (tport r))
    \<and> accepted r' = accepted r"
  using assms
proof (induction n arbitrary: r)
  case 0
  then show ?case by simp
next
  case (Suc n)
  then obtain y ys where c: "tx_contents (tport r) = y # ys"
    by (cases "tx_contents (tport r)") simp_all
  then have ne: "tx_contents (tport r) \<noteq> []" by simp
  define s' where "s' = (tport r)\<lparr>txTail := of_nat (Suc (unat (txTail (tport r))) mod unat (txSize (tport r)))\<rparr>"
  define r1 where "r1 = r\<lparr>tport := s',
      tuart := snd (HAL_UART_Transmit_IT (uart_tx_done (tuart r)) (hd (tx_contents (tport r))))\<rparr>"
  note d = tx_dequeue [OF Suc.prems(1) ne s'_def]
  have s1: "tx_step TxComplete r = Inr r1"
    using d(1) by (simp add: r1_def)
  have p1: "tx_ok (tport r1)" "n \<le> length (tx_contents (tport r1))"
    using d(3,4) Suc.prems(2) c by (simp_all add: r1_def)
  from Suc.IH [OF p1] obtain r' where
    s2: "tx_run_ops (replicate n TxComplete) r1 = Inr r'" and ok': "tx_ok (tport r')"
    and c': "tx_contents (tport r') = drop n (tx_contents (tport r1))"
    and l': "transmitted (calls (tuart r'))
        = transmitted (calls (tuart r1)) @ take n (tx_contents (tport r1))"
    and a': "accepted r' = accepted r1"
    by blast
  have run: "tx_run_ops (replicate (Suc n) TxComplete) r = Inr r'"
    using s1 s2 by simp
  have "tx_contents (tport r') = drop (Suc n) (tx_contents (tport r))"
    "transmitted (calls (tuart r'))
        = transmitted (calls (tuart r)) @ take (Suc n) (tx_contents (tport r))"
    "accepted r' = accepted r"
    using c' l' a' d(3) c by (simp_all add: r1_def)
  with run ok' show ?case by blast
qed

lemma tx_fifo_three:
  assumes ok: "tx_ok s" and free: "3 \<le> tx_free s" and busy: "gState h \<noteq> HAL_UART_STATE_READY"
  shows "\<exists>r. tx_run_ops [WriteByte a, WriteByte b, WriteByte c,
                         TxComplete, TxComplete, TxComplete]
           \<lparr>tport = s, tuart = h, accepted = []\<rparr> = Inr r
    \<and> accepted r = [a, b, c]
    \<and> transmitted (calls (tuart r))
        = transmitted (calls h) @ take 3 (tx_contents s @ [a, b, c])"
proof -
  let ?r0 = "\<lparr>tport = s, tuart = h, accepted = []\<rparr>"
  have "tx_ok (tport ?r0)" "gState (tuart ?r0) \<noteq> HAL_UART_STATE_READY"
    "length [a, b, c] \<le> tx_free (tport ?r0)"
    using ok free busy by simp_all
  from tx_writes_busy_run [OF this] obtain r1 where
    s1: "tx_run_ops (map WriteByte [a, b, c]) ?r0 = Inr r1"
    and ok1: "tx_ok (tport r1)" and u1: "tuart r1 = h"
    and c1: "tx_contents (tport r1) = tx_contents s @ [a, b, c]"
    and a1: "accepted r1 = [a, b, c]"
    by auto
  have "3 \<le> length (tx_contents (tport r1))" using c1 by simp
  from tx_completes_run [OF ok1 this] obtain r where
    s2: "tx_run_ops (replicate 3 TxComplete) r1 = Inr r"
    and l2: "transmitted (calls (tuart r))
        = transmitted (calls (tuart r1)) @ take 3 (tx_contents (tport r1))"
    and a2: "accepted r = accepted r1"
    by blast
  have "tx_run_ops (map WriteByte [a, b, c] @ replicate 3 TxComplete) ?r0 = Inr r"
    unfolding tx_run_ops_append s1 bind_result_Inr by (rule s2)
  moreover have "map WriteByte [a, b, c] @ replicate 3 TxComplete
      = [WriteByte a, WriteByte b, WriteByte c, TxComplete, TxComplete, TxComplete]"
    by (simp add: numeral_3_eq_3)
  ultimately have "tx_run_ops [WriteByte a, WriteByte b, WriteByte c,
      TxComplete, TxComplete, TxComplete] ?r0 = Inr r"
    by simp
  with l2 a2 a1 c1 u1 show ?thesis by auto
qed

lemma fresh_port_facts:
  "rx_ok fresh_port" "tx_ok fresh_port" "rx_contents fresh_port = []"
  "tx_contents fresh_port = []" "rx_free fresh_port = 3" "tx_free fresh_port = 3"
  "rxHead fresh_port = rxTail fresh_port" "txHead fresh_port = txTail fresh_port"
  by (simp_all add: rx_ok_def tx_ok_def rx_free_def tx_free_def rx_contents_def
      tx_contents_def ring_contents_def ring_count_def fresh_port_def init_fields_def
      new_uint8_array_def)

lemma one_queued_port_facts:
  "rx_ok one_queued_port" "tx_ok one_queued_port" "rx_contents one_queued_port = [9]"
  "tx_contents one_queued_port = [9]" "rx_free one_queued_port = 6"
  "tx_free one_queued_port = 6"
  by (simp_all add: rx_ok_def tx_ok_def rx_free_def tx_free_def rx_contents_def
      tx_contents_def ring_contents_def ring_count_def one_queued_port_def)

section \<open>The registry\<close>

lemma slot_of_inject: "slot_of p = Some i \<Longrightarrow> slot_of q = Some i \<Longrightarrow> p = q"
  by (cases p; cases q) simp_all

lemma slot_of_supported:
  "p \<in> {USART1, USART2, USART3, UART4, UART5, USART6} \<Longrightarrow> \<exists>i. slot_of p = Some i"
  by auto

lemma registerInstance_eq:
  "registerInstance hu inst w =
     (case handles w hu of
        None \<Rightarrow> Inl InvalidPointer
      | Some h \<Rightarrow>
          Inr (case slot_of (Instance h) of
                 None \<Rightarrow> w
               | Some i \<Rightarrow> w\<lparr>instance_table := (instance_table w)(i := inst)\<rparr>))"
  by (cases "handles w hu"; simp add: registerInstance_def)
     (rename_tac h, case_tac "Instance h", simp_all)

lemma fromHandle_eq:
  "fromHandle hu w =
     (case handles w hu of
        None \<Rightarrow> Inl InvalidPointer
      | Some h \<Rightarrow>
          Inr (case slot_of (Instance h) of None \<Rightarrow> None | Some i \<Rightarrow> instance_table w i))"
  by (cases "handles w hu"; simp add: fromHandle_def)
     (rename_tac h, case_tac "Instance h", simp_all)

lemma fromHandle_slot:
  assumes "identity_of w hu = Some p"
  shows "fromHandle hu w
      = Inr (case slot_of p of None \<Rightarrow> None | Some i \<Rightarrow> instance_table w i)"
  using assms by (auto simp: fromHandle_eq identity_of_def split: option.splits)

lemma registerInstance_frame:
  assumes "registerInstance hu inst w = Inr w'"
  shows "handles w' = handles w" and "serials w' = serials w"
    and "instance_table w'
      = (case slot_at w hu of None \<Rightarrow> instance_table w
         | Some i \<Rightarrow> (instance_table w)(i := inst))"
  using assms
  by (auto simp: registerInstance_eq slot_at_def identity_of_def split: option.splits)

lemma construct_frame:
  assumes "construct this hu n jr jt w = Inr w'"
  shows "handles w' = handles w"
    and "instance_table w'
      = (case slot_at w hu of None \<Rightarrow> instance_table w
         | Some i \<Rightarrow> (instance_table w)(i := Some this))"
  using assms
  by (auto simp: construct_def registerInstance_eq slot_at_def identity_of_def
      split: option.splits)

text \<open>No member function changes the peripheral a handle belongs to.\<close>

lemma Receive_IT_Instance [simp]: "Instance (snd (HAL_UART_Receive_IT h)) = Instance h"
  by (simp add: HAL_UART_Receive_IT_def)

lemma Transmit_IT_Instance [simp]: "Instance (snd (HAL_UART_Transmit_IT h d)) = Instance h"
  by (simp add: HAL_UART_Transmit_IT_def)

lemma handleRxComplete_Instance:
  "handleRxComplete s h = Inr (s', h') \<Longrightarrow> Instance h' = Instance h"
  by (auto simp: handleRxComplete_def bind_result_def HAL_UART_Receive_IT_def
      HAL_UART_AbortReceive_def HAL_UNLOCK_def split: sum.splits if_splits)

lemma handleTxComplete_Instance:
  "handleTxComplete s h = Inr (s', h') \<Longrightarrow> Instance h' = Instance h"
  by (auto simp: handleTxComplete_def bind_result_def split: sum.splits if_splits)

lemma startTxInterrupt_Instance:
  "startTxInterrupt s h = Inr (s', h') \<Longrightarrow> Instance h' = Instance h"
  by (auto simp: startTxInterrupt_def bind_result_def split: sum.splits if_splits)

lemma write_byte_Instance:
  "write_byte s h b = Inr (r, s', h') \<Longrightarrow> Instance h' = Instance h"
  by (auto simp: write_byte_def bind_result_def split: sum.splits if_splits
      dest: startTxInterrupt_Instance)

lemma write_loop_Instance:
  "write_loop s h data len i acc = Inr (r, s', h') \<Longrightarrow> Instance h' = Instance h"
proof (induction s h data len i acc rule: write_loop.induct)
  case (1 s h data len i written)
  show ?case
  proof (cases "i < len")
    case False
    then show ?thesis using "1.prems" by (simp add: write_loop_done)
  next
    case True
    from "1.prems" True obtain d where ld: "load data i = Inr d"
      by (subst (asm) write_loop.simps) (auto split: sum.splits)
    from "1.prems" True ld obtain r1 s1 h1 where w: "write_byte s h d = Inr (r1, s1, h1)"
      by (subst (asm) write_loop.simps) (auto split: sum.splits)
    have i1: "Instance h1 = Instance h" using w by (rule write_byte_Instance)
    show ?thesis
    proof (cases "r1 = 1")
      case True
      have "write_loop s1 h1 data len (i + 1) (written + 1) = Inr (r, s', h')"
        using "1.prems" \<open>i < len\<close> ld w True by (subst (asm) write_loop.simps) simp
      from "1.IH" [OF \<open>i < len\<close> ld w refl refl True this] show ?thesis using i1 by simp
    next
      case False
      have "h' = h1"
        using "1.prems" \<open>i < len\<close> ld w False by (subst (asm) write_loop.simps) simp
      then show ?thesis using i1 by simp
    qed
  qed
qed

lemma on_object_frame:
  assumes f: "\<forall>s h s' h'. f s h = Inr (s', h') \<longrightarrow> Instance h' = Instance h"
    and run: "on_object this f w = Inr w'"
  shows "instance_table w' = instance_table w \<and> identity_of w' = identity_of w"
proof -
  from run obtain s h s' h' where
    s: "serials w this = Some s" and h: "handles w (huart s) = Some h"
    and r: "f s h = Inr (s', h')"
    and w': "w' = w\<lparr>serials := (serials w)(this := Some s'),
                     handles := (handles w)(huart s := Some h')\<rparr>"
    by (auto simp: on_object_def bind_result_def split: option.splits sum.splits)
  have "Instance h' = Instance h" using r f by blast
  then have "identity_of w' = identity_of w"
    using h by (auto simp: identity_of_def w' fun_eq_iff)
  then show ?thesis by (simp add: w')
qed

lemma perform_frame:
  assumes "perform c w = Inr w'"
  shows "identity_of w' = identity_of w"
    and "instance_table w'
      = (case c of
           Construct this hu n junk_rx junk_tx \<Rightarrow>
             (case slot_at w hu of None \<Rightarrow> instance_table w
              | Some i \<Rightarrow> (instance_table w)(i := Some this))
         | RegisterInstance hu inst \<Rightarrow>
             (case slot_at w hu of None \<Rightarrow> instance_table w
              | Some i \<Rightarrow> (instance_table w)(i := inst))
         | _ \<Rightarrow> instance_table w)"
proof -
  have "identity_of w' = identity_of w
    \<and> instance_table w'
      = (case c of
           Construct this hu n junk_rx junk_tx \<Rightarrow>
             (case slot_at w hu of None \<Rightarrow> instance_table w
              | Some i \<Rightarrow> (instance_table w)(i := Some this))
         | RegisterInstance hu inst \<Rightarrow>
             (case slot_at w hu of None \<Rightarrow> instance_table w
              | Some i \<Rightarrow> (instance_table w)(i := inst))
         | _ \<Rightarrow> instance_table w)"
  proof (cases c)
    case (Construct this hu n jr jt)
    then show ?thesis
      using assms construct_frame [of this hu n jr jt w w']
      by (simp add: identity_of_def fun_eq_iff)
  next
    case (RegisterInstance hu inst)
    then show ?thesis
      using assms registerInstance_frame [of hu inst w w']
      by (simp add: identity_of_def fun_eq_iff)
  next
    case (FromHandle hu)
    then show ?thesis
      using assms by (auto simp: bind_result_def split: sum.splits)
  next
    case (Begin this)
    let ?f = "\<lambda>s h. Inr (s, serial_begin h)"
    have f: "\<forall>s h s' h'. ?f s h = Inr (s', h') \<longrightarrow> Instance h' = Instance h"
      by (auto simp: serial_begin_def startRxInterrupt_def)
    have run: "on_object this ?f w = Inr w'"
      using assms Begin by simp
    from on_object_frame [OF f run] show ?thesis
      using Begin by simp
  next
    case (Read this)
    let ?f = "\<lambda>s h. bind_result (read s) (\<lambda>(r, s'). Inr (s', h))"
    have f: "\<forall>s h s' h'. ?f s h = Inr (s', h') \<longrightarrow> Instance h' = Instance h"
      by (auto simp: bind_result_def split: sum.splits)
    have run: "on_object this ?f w = Inr w'"
      using assms Read by simp
    from on_object_frame [OF f run] show ?thesis
      using Read by simp
  next
    case (Write this b)
    let ?f = "\<lambda>s h. bind_result (write_byte s h b) (\<lambda>(r, s', h'). Inr (s', h'))"
    have f: "\<forall>s h s' h'. ?f s h = Inr (s', h') \<longrightarrow> Instance h' = Instance h"
      by (auto simp: bind_result_def split: sum.splits dest: write_byte_Instance)
    have run: "on_object this ?f w = Inr w'"
      using assms Write by simp
    from on_object_frame [OF f run] show ?thesis
      using Write by simp
  next
    case (WriteBytes this data len)
    let ?f = "\<lambda>s h. bind_result (write_bytes s h data len) (\<lambda>(r, s', h'). Inr (s', h'))"
    have f: "\<forall>s h s' h'. ?f s h = Inr (s', h') \<longrightarrow> Instance h' = Instance h"
      by (auto simp: bind_result_def write_bytes_def split: sum.splits dest: write_loop_Instance)
    have run: "on_object this ?f w = Inr w'"
      using assms WriteBytes by simp
    from on_object_frame [OF f run] show ?thesis
      using WriteBytes by simp
  next
    case (Available this)
    let ?f = "\<lambda>s h. Inr (s, h) :: fault + STM32BufferedSerial \<times> UART_HandleTypeDef"
    have f: "\<forall>s h s' h'. ?f s h = Inr (s', h') \<longrightarrow> Instance h' = Instance h"
      by auto
    have run: "on_object this ?f w = Inr w'"
      using assms Available by simp
    from on_object_frame [OF f run] show ?thesis
      using Available by simp
  next
    case (ReadableLen this)
    let ?f = "\<lambda>s h. Inr (s, h) :: fault + STM32BufferedSerial \<times> UART_HandleTypeDef"
    have f: "\<forall>s h s' h'. ?f s h = Inr (s', h') \<longrightarrow> Instance h' = Instance h"
      by auto
    have run: "on_object this ?f w = Inr w'"
      using assms ReadableLen by simp
    from on_object_frame [OF f run] show ?thesis
      using ReadableLen by simp
  next
    case (FlushRx this)
    let ?f = "\<lambda>s h. Inr (flushRx s, h) :: fault + STM32BufferedSerial \<times> UART_HandleTypeDef"
    have f: "\<forall>s h s' h'. ?f s h = Inr (s', h') \<longrightarrow> Instance h' = Instance h"
      by auto
    have run: "on_object this ?f w = Inr w'"
      using assms FlushRx by simp
    from on_object_frame [OF f run] show ?thesis
      using FlushRx by simp
  next
    case (FlushTx this)
    let ?f = "\<lambda>s h. Inr (flushTx s, h) :: fault + STM32BufferedSerial \<times> UART_HandleTypeDef"
    have f: "\<forall>s h s' h'. ?f s h = Inr (s', h') \<longrightarrow> Instance h' = Instance h"
      by auto
    have run: "on_object this ?f w = Inr w'"
      using assms FlushTx by simp
    from on_object_frame [OF f run] show ?thesis
      using FlushTx by simp
  next
    case (RxCpltCallback hu)
    show ?thesis
    proof (cases "fromHandle hu w")
      case (Inl e)
      then show ?thesis using assms RxCpltCallback by (simp add: HAL_UART_RxCpltCallback_def)
    next
      case (Inr obj)
      show ?thesis
      proof (cases obj)
        case None
        then show ?thesis
          using assms RxCpltCallback Inr by (simp add: HAL_UART_RxCpltCallback_def)
      next
        case (Some this)
        then have run: "on_object this handleRxComplete w = Inr w'"
          using assms RxCpltCallback Inr by (simp add: HAL_UART_RxCpltCallback_def)
        have "\<forall>s h s' h'. handleRxComplete s h = Inr (s', h') \<longrightarrow> Instance h' = Instance h"
          using handleRxComplete_Instance by blast
        from on_object_frame [OF this run]
        show ?thesis using RxCpltCallback by simp
      qed
    qed
  next
    case (TxCpltCallback hu)
    show ?thesis
    proof (cases "fromHandle hu w")
      case (Inl e)
      then show ?thesis using assms TxCpltCallback by (simp add: HAL_UART_TxCpltCallback_def)
    next
      case (Inr obj)
      show ?thesis
      proof (cases obj)
        case None
        then show ?thesis
          using assms TxCpltCallback Inr by (simp add: HAL_UART_TxCpltCallback_def)
      next
        case (Some this)
        then have run: "on_object this handleTxComplete w = Inr w'"
          using assms TxCpltCallback Inr by (simp add: HAL_UART_TxCpltCallback_def)
        have "\<forall>s h s' h'. handleTxComplete s h = Inr (s', h') \<longrightarrow> Instance h' = Instance h"
          using handleTxComplete_Instance by blast
        from on_object_frame [OF this run]
        show ?thesis using TxCpltCallback by simp
      qed
    qed
  qed
  then show "identity_of w' = identity_of w"
    and "instance_table w'
      = (case c of
           Construct this hu n junk_rx junk_tx \<Rightarrow>
             (case slot_at w hu of None \<Rightarrow> instance_table w
              | Some i \<Rightarrow> (instance_table w)(i := Some this))
         | RegisterInstance hu inst \<Rightarrow>
             (case slot_at w hu of None \<Rightarrow> instance_table w
              | Some i \<Rightarrow> (instance_table w)(i := inst))
         | _ \<Rightarrow> instance_table w)"
    by simp_all
qed

lemma registers_for_identity:
  "identity_of w' = identity_of w \<Longrightarrow> registers_for w' p c = registers_for w p c"
  by (cases c) simp_all

lemma other_slot:
  assumes "identity_of w hu' \<noteq> Some p" and "slot_of p = Some i"
  shows "slot_at w hu' \<noteq> Some i"
proof
  assume s: "slot_at w hu' = Some i"
  then obtain q where q: "identity_of w hu' = Some q" and "slot_of q = Some i"
    by (cases "identity_of w hu'") (simp_all add: slot_at_def)
  then have "q = p" using assms(2) slot_of_inject by blast
  then show False using q assms(1) by simp
qed

lemma update_other_slot:
  assumes "slot_at w hu' \<noteq> Some i"
  shows "(case slot_at w hu' of None \<Rightarrow> tbl | Some j \<Rightarrow> tbl(j := v)) i = tbl i"
  using assms by (cases "slot_at w hu'") simp_all

lemma perform_keeps_slot:
  assumes run: "perform c w = Inr w'" and other: "\<not> registers_for w p c"
    and sl: "slot_of p = Some i"
  shows "instance_table w' i = instance_table w i"
proof (cases c)
  case (Construct this hu' n jr jt)
  then have "identity_of w hu' \<noteq> Some p" using other by simp
  then have "slot_at w hu' \<noteq> Some i" using sl by (rule other_slot)
  then show ?thesis
    unfolding perform_frame(2) [OF run] Construct api_call.case by (rule update_other_slot)
next
  case (RegisterInstance hu' inst)
  then have "identity_of w hu' \<noteq> Some p" using other by simp
  then have "slot_at w hu' \<noteq> Some i" using sl by (rule other_slot)
  then show ?thesis
    unfolding perform_frame(2) [OF run] RegisterInstance api_call.case
    by (rule update_other_slot)
next
  case (FromHandle x)
  show ?thesis unfolding perform_frame(2) [OF run] FromHandle api_call.case ..
next
  case (Begin x)
  show ?thesis unfolding perform_frame(2) [OF run] Begin api_call.case ..
next
  case (Read x)
  show ?thesis unfolding perform_frame(2) [OF run] Read api_call.case ..
next
  case (Write x y)
  show ?thesis unfolding perform_frame(2) [OF run] Write api_call.case ..
next
  case (WriteBytes x y z)
  show ?thesis unfolding perform_frame(2) [OF run] WriteBytes api_call.case ..
next
  case (Available x)
  show ?thesis unfolding perform_frame(2) [OF run] Available api_call.case ..
next
  case (ReadableLen x)
  show ?thesis unfolding perform_frame(2) [OF run] ReadableLen api_call.case ..
next
  case (FlushRx x)
  show ?thesis unfolding perform_frame(2) [OF run] FlushRx api_call.case ..
next
  case (FlushTx x)
  show ?thesis unfolding perform_frame(2) [OF run] FlushTx api_call.case ..
next
  case (RxCpltCallback x)
  show ?thesis unfolding perform_frame(2) [OF run] RxCpltCallback api_call.case ..
next
  case (TxCpltCallback x)
  show ?thesis unfolding perform_frame(2) [OF run] TxCpltCallback api_call.case ..
qed

lemma perform_keeps_lookup:
  assumes run: "perform c w = Inr w'" and idt: "identity_of w hu = Some p"
    and other: "\<not> registers_for w p c"
  shows "fromHandle hu w' = fromHandle hu w"
proof -
  have idt': "identity_of w' hu = Some p" using perform_frame(1) [OF run] idt by simp
  show ?thesis
  proof (cases "slot_of p")
    case None
    then show ?thesis by (simp add: fromHandle_slot [OF idt] fromHandle_slot [OF idt'])
  next
    case (Some i)
    have "instance_table w' i = instance_table w i"
      using run other Some by (rule perform_keeps_slot)
    then show ?thesis
      using Some by (simp add: fromHandle_slot [OF idt] fromHandle_slot [OF idt'])
  qed
qed

lemma perform_all_keeps_lookup:
  assumes "perform_all cs w = Inr w'" and "identity_of w hu = Some p"
    and "\<forall>c\<in>set cs. \<not> registers_for w p c"
  shows "fromHandle hu w' = fromHandle hu w"
  using assms
proof (induction cs arbitrary: w)
  case Nil
  then show ?case by simp
next
  case (Cons c cs)
  from Cons.prems(1) obtain wm where
    s1: "perform c w = Inr wm" and s2: "perform_all cs wm = Inr w'"
    by (auto simp: bind_result_def split: sum.splits)
  have i1: "identity_of wm = identity_of w" using perform_frame(1) [OF s1] .
  have k1: "fromHandle hu wm = fromHandle hu w"
    using perform_keeps_lookup [OF s1 Cons.prems(2)] Cons.prems(3) by simp
  have "identity_of wm hu = Some p" using i1 Cons.prems(2) by simp
  moreover have "\<forall>c\<in>set cs. \<not> registers_for wm p c"
    using Cons.prems(3) registers_for_identity [OF i1] by simp
  ultimately have "fromHandle hu w' = fromHandle hu wm"
    using Cons.IH [OF s2] by blast
  then show ?case using k1 by simp
qed

lemma register_then_lookup:
  assumes h: "handles w hu = Some h" and sup: "slot_of (Instance h) = Some i"
  shows "\<exists>w1. registerInstance hu inst w = Inr w1 \<and> fromHandle hu w1 = Inr inst
    \<and> handles w1 = handles w"
  using assms by (simp add: registerInstance_eq fromHandle_eq)

lemma initial_lookup:
  assumes "hs hu = Some h"
  shows "fromHandle hu (initial_world hs) = Inr None"
  using assms by (simp add: fromHandle_eq initial_world_def split: option.splits)

lemma callbacks_ignore_unregistered:
  assumes "fromHandle hu w = Inr None"
  shows "HAL_UART_RxCpltCallback hu w = Inr w" and "HAL_UART_TxCpltCallback hu w = Inr w"
  using assms by (simp_all add: HAL_UART_RxCpltCallback_def HAL_UART_TxCpltCallback_def)

lemma one_uart_world_facts:
  "handles one_uart_world 1 = Some idle_uart" "Instance idle_uart = USART2"
  "instance_table one_uart_world = (\<lambda>i. None)"
  "fromHandle 1 one_uart_world = Inr None"
  by (simp_all add: one_uart_world_def initial_world_def idle_uart_def fromHandle_eq)

section \<open>The claims\<close>

text \<open>
  C1 (capacity invariant). For every capacity \<open>N \<ge> 2\<close> and every sequence of stagings,
  \<^verbatim>\<open>handleRxComplete\<close> calls and \<^verbatim>\<open>read\<close> calls from an empty inbound ring, the
  run never faults, the ring holds at most \<open>N - 1\<close> bytes, the indices stay below \<open>N\<close>,
  and \<^verbatim>\<open>readable_len()\<close> is the number of pushes accepted minus the number of pops
  performed (which is the number of bytes queued), wraparound included.
\<close>

theorem rx_capacity_invariant:
  assumes ok: "rx_ok s" and empty: "rxHead s = rxTail s" and big: "2 \<le> unat (rxSize s)"
  shows "\<exists>r. rx_run_ops xs \<lparr>port = s, uart = h, committed = [], popped = []\<rparr> = Inr r
    \<and> length (rx_contents (port r)) \<le> unat (rxSize s) - 1
    \<and> rxSize (port r) = rxSize s
    \<and> rxHead (port r) < rxSize s \<and> rxTail (port r) < rxSize s
    \<and> readable_len (port r) = int (length (committed r)) - int (length (popped r))
    \<and> readable_len (port r) = int (length (rx_contents (port r)))"
proof -
  let ?r0 = "\<lparr>port = s, uart = h, committed = [], popped = []\<rparr>"
  have e: "rx_contents s = []" using rx_empty_iff [OF ok] empty by simp
  have "\<exists>r'. rx_run_ops xs ?r0 = Inr r' \<and> rx_ok (port r') \<and> rxSize (port r') = rxSize (port ?r0)
      \<and> map uint ([] @ committed r') = popped r' @ map uint (rx_contents (port r'))"
    by (rule rx_run_invariant) (use ok big e in simp_all)
  then obtain r where run: "rx_run_ops xs ?r0 = Inr r" and okr: "rx_ok (port r)"
    and sz: "rxSize (port r) = rxSize s"
    and f: "map uint (committed r) = popped r @ map uint (rx_contents (port r))"
    by auto
  have "length (map uint (committed r)) = length (popped r @ map uint (rx_contents (port r)))"
    using f by simp
  then have len: "length (committed r) = length (popped r) + length (rx_contents (port r))"
    by simp
  show ?thesis
    using run okr sz len rx_count_le [OF okr] readable_len_count [OF okr]
    by (simp add: rx_ok_def)
qed


theorem rx_capacity_invariant_witness:
  "rx_ok fresh_port \<and> rxHead fresh_port = rxTail fresh_port \<and> 2 \<le> unat (rxSize fresh_port)
   \<and> (\<exists>r. rx_run_ops [Stage 1, RxComplete, Stage 2, RxComplete, Stage 3, RxComplete,
                       Stage 4, RxComplete, ReadByte, ReadByte, Stage 5, RxComplete]
          \<lparr>port = fresh_port, uart = idle_uart, committed = [], popped = []\<rparr> = Inr r
      \<and> length (rx_contents (port r)) \<le> unat (rxSize fresh_port) - 1
      \<and> rxSize (port r) = rxSize fresh_port
      \<and> rxHead (port r) < rxSize fresh_port \<and> rxTail (port r) < rxSize fresh_port
      \<and> readable_len (port r) = int (length (committed r)) - int (length (popped r))
      \<and> readable_len (port r) = int (length (rx_contents (port r))))"
proof -
  have h1: "rx_ok fresh_port"
    by (simp add: rx_ok_def fresh_port_def init_fields_def new_uint8_array_def)
  have h2: "rxHead fresh_port = rxTail fresh_port"
    by (simp add: fresh_port_def init_fields_def)
  have h3: "2 \<le> unat (rxSize fresh_port)"
    by (simp add: fresh_port_def init_fields_def)
  show ?thesis
    using h1 h2 h3 rx_capacity_invariant [OF h1 h2 h3] by blast
qed

text \<open>
  C3 (overflow drop). When the outbound ring is full, \<open>(head + 1) mod N = tail\<close>,
  \<^verbatim>\<open>write(byte)\<close> returns \<open>-1\<close> and neither the object nor the handle changes; in
  particular a capacity-4 ring that holds 3 bytes rejects a further byte and keeps its
  length.
\<close>

theorem write_byte_full_dropped:
  "(txSize s \<noteq> 0 \<and> (unat (txHead s) + 1) mod unat (txSize s) = unat (txTail s)
      \<longrightarrow> write_byte s h b = Inr (- 1, s, h))
   \<and> (tx_ok s \<and> txSize s = 4 \<and> length (tx_contents s) = 3
      \<longrightarrow> write_byte s h b = Inr (- 1, s, h))"
proof (intro conjI impI)
  assume "txSize s \<noteq> 0 \<and> (unat (txHead s) + 1) mod unat (txSize s) = unat (txTail s)"
  then show "write_byte s h b = Inr (- 1, s, h)"
    by (simp add: write_byte_full)
next
  assume a: "tx_ok s \<and> txSize s = 4 \<and> length (tx_contents s) = 3"
  then have "tx_free s = 0" by (simp add: tx_free_def)
  then have "Suc (unat (txHead s)) mod unat (txSize s) = unat (txTail s)"
    using a tx_full_nat_iff [of s] by simp
  then show "write_byte s h b = Inr (- 1, s, h)"
    using a by (simp add: write_byte_full tx_okD)
qed


theorem write_byte_full_dropped_witness:
  "txSize full_tx_port \<noteq> 0
   \<and> (unat (txHead full_tx_port) + 1) mod unat (txSize full_tx_port) = unat (txTail full_tx_port)
   \<and> tx_ok full_tx_port \<and> txSize full_tx_port = 4 \<and> length (tx_contents full_tx_port) = 3
   \<and> write_byte full_tx_port idle_uart 40 = Inr (- 1, full_tx_port, idle_uart)"
proof -
  have h1: "txSize full_tx_port \<noteq> 0
      \<and> (unat (txHead full_tx_port) + 1) mod unat (txSize full_tx_port) = unat (txTail full_tx_port)"
    by (simp add: full_tx_port_def)
  have h2: "tx_ok full_tx_port \<and> txSize full_tx_port = 4 \<and> length (tx_contents full_tx_port) = 3"
    by (simp add: full_tx_port_def tx_ok_def tx_contents_def ring_count_def)
  show ?thesis
    using h1 h2 write_byte_full_dropped [of full_tx_port idle_uart 40] by blast
qed

text \<open>
  C4 (inbound completion). On every \<^verbatim>\<open>handleRxComplete\<close>: with free capacity the
  staged byte \<^verbatim>\<open>_rxTmp\<close> is appended to the inbound ring and the write index
  advances by one (modulo the capacity); with a full ring the object is unchanged; and in
  both cases a receive request is issued, and the last request issued is accepted, so
  the receiver is armed when the handler returns.
\<close>

theorem handleRxComplete_push_and_rearm:
  assumes ok: "rx_ok s"
  shows "\<exists>s' h'. handleRxComplete s h = Inr (s', h')
    \<and> (0 < rx_free s \<longrightarrow>
          s' = s\<lparr>rxBuf := (rxBuf s)[unat (rxHead s) := rxTmp s], rxHead := rxHead s'\<rparr>
          \<and> unat (rxHead s') = (unat (rxHead s) + 1) mod unat (rxSize s)
          \<and> rx_contents s' = rx_contents s @ [rxTmp s])
    \<and> (rx_free s = 0 \<longrightarrow> s' = s)
    \<and> (calls h' = calls h @ [Receive_IT HAL_OK]
        \<or> calls h' = calls h @ [Receive_IT HAL_BUSY, Unlock, AbortReceive, Receive_IT HAL_OK])
    \<and> receive_requests (calls h) < receive_requests (calls h')
    \<and> RxState h' = HAL_UART_STATE_BUSY_RX \<and> 0 < rxOutstanding h'"
proof (cases "rx_free s = 0")
  case True
  then show ?thesis by (simp add: handleRxComplete_eq [OF ok])
next
  case False
  define s' where "s' = s\<lparr>rxBuf := (rxBuf s)[unat (rxHead s) := rxTmp s],
      rxHead := of_nat (Suc (unat (rxHead s)) mod unat (rxSize s))\<rparr>"
  note p = rx_pushed [OF ok False s'_def]
  have hd: "unat (rxHead s') = (unat (rxHead s) + 1) mod unat (rxSize s)"
    using rx_okD(1) [OF ok] by (simp add: s'_def unat_next)
  have st: "s' = s\<lparr>rxBuf := (rxBuf s)[unat (rxHead s) := rxTmp s], rxHead := rxHead s'\<rparr>"
    by (simp add: s'_def)
  have "fst (projr (handleRxComplete s h)) = s'"
    using False by (simp add: handleRxComplete_eq [OF ok] s'_def)
  then show ?thesis
    using False p(2) hd st by (simp add: handleRxComplete_eq [OF ok])
qed


theorem handleRxComplete_push_and_rearm_witness:
  "rx_ok (fresh_port\<lparr>rxTmp := 7\<rparr>)
   \<and> (\<exists>s' h'. handleRxComplete (fresh_port\<lparr>rxTmp := 7\<rparr>) idle_uart = Inr (s', h')
      \<and> rx_contents s' = [7] \<and> unat (rxHead s') = 1
      \<and> 0 < receive_requests (calls h')
      \<and> RxState h' = HAL_UART_STATE_BUSY_RX \<and> 0 < rxOutstanding h')"
proof -
  let ?s = "fresh_port\<lparr>rxTmp := 7\<rparr>"
  have h1: "rx_ok ?s"
    by (simp add: rx_ok_def fresh_port_def init_fields_def new_uint8_array_def)
  have c: "rx_contents ?s = []"
    by (simp add: rx_contents_def ring_contents_def ring_count_def fresh_port_def
        init_fields_def)
  have f: "0 < rx_free ?s" "rxSize ?s = 4" "rxHead ?s = 0" "rxTmp ?s = 7"
    using c by (simp_all add: rx_free_def fresh_port_def init_fields_def)
  show ?thesis
    using h1 c f handleRxComplete_push_and_rearm [OF h1, of idle_uart] by auto
qed

text \<open>
  C5 (busy recovery). If the first re-arm request of \<^verbatim>\<open>handleRxComplete\<close> is
  rejected, the handler unlocks the handle, aborts the receive and issues the request once
  more; the calls it makes are exactly these four, the second request is accepted, and
  afterwards exactly one receive request is outstanding. The transport is the simulated
  one above.
\<close>

theorem busy_rearm_recovers_once:
  assumes ok: "rx_ok s" and rejected: "fst (HAL_UART_Receive_IT h) \<noteq> HAL_OK"
  shows "\<exists>s' h'. handleRxComplete s h = Inr (s', h')
    \<and> calls h' = calls h @ [Receive_IT HAL_BUSY, Unlock, AbortReceive, Receive_IT HAL_OK]
    \<and> rxOutstanding h' = 1
    \<and> RxState h' = HAL_UART_STATE_BUSY_RX \<and> Lock h' = HAL_UNLOCKED"
proof -
  have "Lock h = HAL_LOCKED \<or> RxState h \<noteq> HAL_UART_STATE_READY"
    using rejected by (auto simp: HAL_UART_Receive_IT_def split: if_splits)
  then show ?thesis by (auto simp add: handleRxComplete_eq [OF ok])
qed


theorem busy_rearm_recovers_once_witness:
  "rx_ok fresh_port \<and> fst (HAL_UART_Receive_IT stale_uart) \<noteq> HAL_OK
   \<and> (\<exists>s' h'. handleRxComplete fresh_port stale_uart = Inr (s', h')
      \<and> calls h' = calls stale_uart @ [Receive_IT HAL_BUSY, Unlock, AbortReceive, Receive_IT HAL_OK]
      \<and> rxOutstanding h' = 1
      \<and> RxState h' = HAL_UART_STATE_BUSY_RX \<and> Lock h' = HAL_UNLOCKED)"
proof -
  have h1: "rx_ok fresh_port"
    by (simp add: rx_ok_def fresh_port_def init_fields_def new_uint8_array_def)
  have h2: "fst (HAL_UART_Receive_IT stale_uart) \<noteq> HAL_OK"
    by (simp add: HAL_UART_Receive_IT_def stale_uart_def)
  show ?thesis
    using h1 h2 busy_rearm_recovers_once [OF h1 h2] by blast
qed

text \<open>
  C8 (length computation). The claim says that some index configuration with both
  indices below the capacity makes \<^verbatim>\<open>readable_len()\<close> differ from
  \<open>(head - tail + N) mod N\<close>. There is none: the two branches are written differently
  but agree with the modular formula on every such configuration.
\<close>

theorem readable_len_agrees_with_modulo:
  "rxHead s < rxSize s \<Longrightarrow> rxTail s < rxSize s \<Longrightarrow>
   readable_len s = (uint (rxHead s) - uint (rxTail s) + uint (rxSize s)) mod uint (rxSize s)"
  by (rule readable_len_mod)


theorem readable_len_agrees_with_modulo_witness:
  "rxHead wrapped_port < rxSize wrapped_port \<and> rxTail wrapped_port < rxSize wrapped_port
   \<and> readable_len wrapped_port = 3
   \<and> readable_len wrapped_port
       = (uint (rxHead wrapped_port) - uint (rxTail wrapped_port) + uint (rxSize wrapped_port))
           mod uint (rxSize wrapped_port)"
proof -
  have h1: "rxHead wrapped_port < rxSize wrapped_port"
    by (simp add: wrapped_port_def)
  have h2: "rxTail wrapped_port < rxSize wrapped_port"
    by (simp add: wrapped_port_def)
  have v: "readable_len wrapped_port = 3"
    by (simp add: readable_len_def wrapped_port_def)
  show ?thesis
    using h1 h2 v readable_len_agrees_with_modulo [OF h1 h2] by blast
qed

text \<open>The claim as stated, refuted: no such configuration exists.\<close>

theorem readable_len_never_differs:
  "\<not> (\<exists>s. rxHead s < rxSize s \<and> rxTail s < rxSize s
         \<and> readable_len s \<noteq> (uint (rxHead s) - uint (rxTail s) + uint (rxSize s)) mod uint (rxSize s))"
  using readable_len_mod by blast


text \<open>
  C6 (transmit requests). \<^verbatim>\<open>handleTxComplete\<close> and \<^verbatim>\<open>_startTxInterrupt\<close> issue no
  request and change nothing when the outbound ring is empty; otherwise they issue one
  transmit request that carries the oldest queued byte, and the read index advances by
  one. \<^verbatim>\<open>write(byte)\<close> issues no request when it rejects the byte or when the
  transport is not ready; when the transport is ready its kick-off issues one request
  that carries the oldest byte of the ring after the enqueue. Every transmit request is
  logged with the byte it carries.
\<close>

theorem transmit_requests_carry_oldest:
  assumes ok: "tx_ok s"
  shows
   "(tx_contents s = [] \<longrightarrow>
       handleTxComplete s h = Inr (s, h) \<and> startTxInterrupt s h = Inr (s, h))
    \<and> (tx_contents s \<noteq> [] \<longrightarrow>
        (\<exists>s'. handleTxComplete s h
                 = Inr (s', snd (HAL_UART_Transmit_IT h (hd (tx_contents s))))
            \<and> startTxInterrupt s h
                 = Inr (s', snd (HAL_UART_Transmit_IT h (hd (tx_contents s))))
            \<and> tx_contents s' = tl (tx_contents s)
            \<and> unat (txTail s') = (unat (txTail s) + 1) mod unat (txSize s)
            \<and> txHead s' = txHead s))
    \<and> (tx_free s = 0 \<longrightarrow> write_byte s h b = Inr (- 1, s, h))
    \<and> (0 < tx_free s \<and> gState h \<noteq> HAL_UART_STATE_READY \<longrightarrow>
        (\<exists>s'. write_byte s h b = Inr (1, s', h) \<and> tx_contents s' = tx_contents s @ [b]))
    \<and> (0 < tx_free s \<and> gState h = HAL_UART_STATE_READY \<longrightarrow>
        (\<exists>s'. write_byte s h b
                 = Inr (1, s', snd (HAL_UART_Transmit_IT h (hd (tx_contents s @ [b]))))
            \<and> tx_contents s' = tl (tx_contents s @ [b])
            \<and> unat (txTail s') = (unat (txTail s) + 1) mod unat (txSize s)))
    \<and> (\<forall>d. \<exists>st. calls (snd (HAL_UART_Transmit_IT h d)) = calls h @ [Transmit_IT d st])"
proof (intro conjI impI allI)
  assume "tx_contents s = []"
  then show "handleTxComplete s h = Inr (s, h)" "startTxInterrupt s h = Inr (s, h)"
    using tx_no_dequeue [OF ok] by simp_all
next
  assume ne: "tx_contents s \<noteq> []"
  define s' where "s' = s\<lparr>txTail := of_nat (Suc (unat (txTail s)) mod unat (txSize s))\<rparr>"
  note d = tx_dequeue [OF ok ne s'_def]
  have "unat (txTail s') = (unat (txTail s) + 1) mod unat (txSize s)" "txHead s' = txHead s"
    using tx_okD(1) [OF ok] by (simp_all add: s'_def unat_next)
  then show "\<exists>s'. handleTxComplete s h
                 = Inr (s', snd (HAL_UART_Transmit_IT h (hd (tx_contents s))))
            \<and> startTxInterrupt s h
                 = Inr (s', snd (HAL_UART_Transmit_IT h (hd (tx_contents s))))
            \<and> tx_contents s' = tl (tx_contents s)
            \<and> unat (txTail s') = (unat (txTail s) + 1) mod unat (txSize s)
            \<and> txHead s' = txHead s"
    using d(1,2,3) by blast
next
  assume "tx_free s = 0"
  then show "write_byte s h b = Inr (- 1, s, h)" by (rule write_byte_rejected [OF ok])
next
  assume a: "0 < tx_free s \<and> gState h \<noteq> HAL_UART_STATE_READY"
  define s' where "s' = s\<lparr>txBuf := (txBuf s)[unat (txHead s) := b],
               txHead := of_nat (Suc (unat (txHead s)) mod unat (txSize s))\<rparr>"
  from a have "tx_free s \<noteq> 0" "gState h \<noteq> HAL_UART_STATE_READY" by simp_all
  from write_byte_enqueue [OF ok this s'_def]
  show "\<exists>s'. write_byte s h b = Inr (1, s', h) \<and> tx_contents s' = tx_contents s @ [b]"
    by blast
next
  assume a: "0 < tx_free s \<and> gState h = HAL_UART_STATE_READY"
  define s' where "s' = s\<lparr>txBuf := (txBuf s)[unat (txHead s) := b],
               txHead := of_nat (Suc (unat (txHead s)) mod unat (txSize s)),
               txTail := of_nat (Suc (unat (txTail s)) mod unat (txSize s))\<rparr>"
  from a have "tx_free s \<noteq> 0" "gState h = HAL_UART_STATE_READY" by simp_all
  note k = write_byte_kick [OF ok this s'_def]
  have "unat (txTail s') = (unat (txTail s) + 1) mod unat (txSize s)"
    using tx_okD(1) [OF ok] by (simp add: s'_def unat_next)
  then show "\<exists>s'. write_byte s h b
                 = Inr (1, s', snd (HAL_UART_Transmit_IT h (hd (tx_contents s @ [b]))))
            \<and> tx_contents s' = tl (tx_contents s @ [b])
            \<and> unat (txTail s') = (unat (txTail s) + 1) mod unat (txSize s)"
    using k(1,3) by blast
next
  fix d
  show "\<exists>st. calls (snd (HAL_UART_Transmit_IT h d)) = calls h @ [Transmit_IT d st]"
    by (rule Transmit_IT_calls)
qed


theorem transmit_requests_carry_oldest_witness:
  "tx_ok one_queued_port \<and> tx_contents one_queued_port = [9]
   \<and> (\<exists>s'. handleTxComplete one_queued_port idle_uart
              = Inr (s', snd (HAL_UART_Transmit_IT idle_uart 9))
         \<and> tx_contents s' = [] \<and> unat (txTail s') = 1)
   \<and> (\<exists>s'. write_byte one_queued_port idle_uart 5
              = Inr (1, s', snd (HAL_UART_Transmit_IT idle_uart 9))
         \<and> tx_contents s' = [5])
   \<and> (\<exists>st. calls (snd (HAL_UART_Transmit_IT idle_uart 9)) = [Transmit_IT 9 st])"
proof -
  have h1: "tx_ok one_queued_port"
    by (simp add: tx_ok_def one_queued_port_def)
  have c: "tx_contents one_queued_port = [9]"
    by (simp add: tx_contents_def ring_contents_def ring_count_def one_queued_port_def)
  have f: "0 < tx_free one_queued_port" "txTail one_queued_port = 0"
    "txSize one_queued_port = 8"
    using c by (simp_all add: tx_free_def one_queued_port_def)
  have i: "gState idle_uart = HAL_UART_STATE_READY" "calls idle_uart = []"
    by (simp_all add: idle_uart_def)
  show ?thesis
    using h1 c f i transmit_requests_carry_oldest [OF h1, of idle_uart 5] by auto
qed

text \<open>
  C7 (partial write). \<^verbatim>\<open>write(data, len)\<close> on an outbound ring with \<open>k\<close> free slots,
  for \<open>len\<close> bytes of \<open>data\<close>. While the transport is not ready, each byte is only
  enqueued: the call returns \<open>min len k\<close> and the ring gains exactly the first
  \<open>min len k\<close> bytes of \<open>data\<close>, in order. When the transport is ready and unlocked
  on entry (and \<open>len\<close> and \<open>k\<close> are positive), the first byte's kick-off dequeues the
  oldest queued byte into a transmit request, which frees a slot: the call returns
  \<open>min len (k + 1)\<close>, and the ring holds its old bytes followed by the first
  \<open>min len (k + 1)\<close> bytes of \<open>data\<close>, less the dequeued one.
\<close>

theorem write_bytes_partial:
  assumes ok: "tx_ok s" and len: "unat len \<le> length data"
  shows
   "(gState h \<noteq> HAL_UART_STATE_READY \<longrightarrow>
       (\<exists>s'. write_bytes s h data len = Inr (int (min (unat len) (tx_free s)), s', h)
          \<and> tx_contents s' = tx_contents s @ take (min (unat len) (tx_free s)) data))
    \<and> (gState h = HAL_UART_STATE_READY \<and> Lock h = HAL_UNLOCKED \<and> 0 < len \<and> 0 < tx_free s \<longrightarrow>
       (\<exists>s'. write_bytes s h data len
             = Inr (int (min (unat len) (tx_free s + 1)), s',
                    snd (HAL_UART_Transmit_IT h (hd (tx_contents s @ [data ! 0]))))
          \<and> tx_contents s' = tl (tx_contents s @ take (min (unat len) (tx_free s + 1)) data)))"
proof (intro conjI impI)
  assume busy: "gState h \<noteq> HAL_UART_STATE_READY"
  from write_loop_busy [OF busy len ok, of 0 0]
  show "\<exists>s'. write_bytes s h data len = Inr (int (min (unat len) (tx_free s)), s', h)
          \<and> tx_contents s' = tx_contents s @ take (min (unat len) (tx_free s)) data"
    by (auto simp: write_bytes_def)
next
  assume a: "gState h = HAL_UART_STATE_READY \<and> Lock h = HAL_UNLOCKED \<and> 0 < len \<and> 0 < tx_free s"
  then have "gState h = HAL_UART_STATE_READY" "Lock h = HAL_UNLOCKED" "0 < len" "0 < tx_free s"
    by simp_all
  from write_loop_idle [OF this(1,2) len ok this(4,3)]
  show "\<exists>s'. write_bytes s h data len
             = Inr (int (min (unat len) (tx_free s + 1)), s',
                    snd (HAL_UART_Transmit_IT h (hd (tx_contents s @ [data ! 0]))))
          \<and> tx_contents s' = tl (tx_contents s @ take (min (unat len) (tx_free s + 1)) data)"
    by (auto simp: write_bytes_def)
qed


theorem write_bytes_partial_witness:
  "tx_ok five_slot_port
   \<and> unat (10 :: uint16_t) \<le> length [1, 2, 3, 4, 5, 6, 7, 8, 9, 10 :: uint8_t]
   \<and> gState stale_uart \<noteq> HAL_UART_STATE_READY \<and> tx_free five_slot_port = 4
   \<and> (\<exists>s'. write_bytes five_slot_port stale_uart [1, 2, 3, 4, 5, 6, 7, 8, 9, 10] 10
              = Inr (4, s', stale_uart)
         \<and> tx_contents s' = [1, 2, 3, 4])"
proof -
  have l: "unat (10 :: uint16_t) \<le> length [1, 2, 3, 4, 5, 6, 7, 8, 9, 10 :: uint8_t]"
    by simp
  have b: "gState stale_uart \<noteq> HAL_UART_STATE_READY"
    by (simp add: stale_uart_def)
  show ?thesis
    using l b five_slot_facts
      write_bytes_partial [OF five_slot_facts(1) l, of stale_uart]
    by auto
qed

text \<open>
  The claim as stated, refuted: an idle port of capacity 5 with an empty outbound ring
  has 4 free slots, yet a write of 10 bytes returns 5. The first byte goes straight into
  a transmit request and bytes 2 to 5 stay queued.
\<close>

theorem write_bytes_idle_accepts_one_more:
  "tx_free five_slot_port = 4
   \<and> (\<exists>s' h'. write_bytes five_slot_port idle_uart [1, 2, 3, 4, 5, 6, 7, 8, 9, 10] 10
                = Inr (5, s', h')
         \<and> tx_contents s' = [2, 3, 4, 5] \<and> transmitted (calls h') = [1])"
proof -
  have i: "gState idle_uart = HAL_UART_STATE_READY" "Lock idle_uart = HAL_UNLOCKED"
    "calls idle_uart = []"
    by (simp_all add: idle_uart_def)
  have l: "unat (10 :: uint16_t) \<le> length [1, 2, 3, 4, 5, 6, 7, 8, 9, 10 :: uint8_t]"
    "0 < (10 :: uint16_t)"
    by simp_all
  have p: "0 < tx_free five_slot_port" by (simp add: five_slot_facts)
  from write_loop_idle [OF i(1,2) l(1) five_slot_facts(1) p l(2)]
  show ?thesis
    by (auto simp: write_bytes_def five_slot_facts i)
qed


text \<open>
  C2 (first in, first out), for both rings. From a state with at least three free slots
  whose ring holds the bytes \<open>q\<close>, pushing \<open>a\<close>, \<open>b\<close>, \<open>c\<close> (inbound: staged and
  committed by \<^verbatim>\<open>handleRxComplete\<close>; outbound: \<^verbatim>\<open>write\<close> on a busy transport) and
  then popping three times (inbound: \<^verbatim>\<open>read\<close>; outbound: the transmit requests of
  \<^verbatim>\<open>handleTxComplete\<close>) yields the first three bytes of \<open>q @ [a, b, c]\<close>, which is
  \<open>[a, b, c]\<close> when the ring starts empty. In every run, the bytes popped so far followed
  by the bytes still queued are the initial contents followed by the bytes committed, in
  order of commitment.
\<close>

theorem fifo_order:
  "(rx_ok s \<and> 3 \<le> rx_free s \<longrightarrow>
      (\<exists>r. rx_run_ops [Stage a, RxComplete, Stage b, RxComplete, Stage c, RxComplete,
                        ReadByte, ReadByte, ReadByte]
              \<lparr>port = s, uart = h, committed = [], popped = []\<rparr> = Inr r
         \<and> committed r = [a, b, c]
         \<and> popped r = map uint (take 3 (rx_contents s @ [a, b, c]))
         \<and> (rxHead s = rxTail s \<longrightarrow> popped r = [uint a, uint b, uint c])))
   \<and> (tx_ok s \<and> 3 \<le> tx_free s \<and> gState h \<noteq> HAL_UART_STATE_READY \<longrightarrow>
      (\<exists>r. tx_run_ops [WriteByte a, WriteByte b, WriteByte c,
                        TxComplete, TxComplete, TxComplete]
              \<lparr>tport = s, tuart = h, accepted = []\<rparr> = Inr r
         \<and> accepted r = [a, b, c]
         \<and> transmitted (calls (tuart r))
             = transmitted (calls h) @ take 3 (tx_contents s @ [a, b, c])
         \<and> (txHead s = txTail s \<longrightarrow>
              transmitted (calls (tuart r)) = transmitted (calls h) @ [a, b, c])))
   \<and> (rx_ok s \<and> 2 \<le> unat (rxSize s) \<longrightarrow>
      (\<forall>ops. \<exists>r. rx_run_ops ops \<lparr>port = s, uart = h, committed = [], popped = []\<rparr> = Inr r
         \<and> popped r @ map uint (rx_contents (port r)) = map uint (rx_contents s @ committed r)))
   \<and> (tx_ok s \<longrightarrow>
      (\<forall>ops. \<exists>r. tx_run_ops ops \<lparr>tport = s, tuart = h, accepted = []\<rparr> = Inr r
         \<and> transmitted (calls (tuart r)) @ tx_contents (tport r)
             = transmitted (calls h) @ tx_contents s @ accepted r))"
proof (intro conjI impI allI)
  assume a: "rx_ok s \<and> 3 \<le> rx_free s"
  then have ok: "rx_ok s" and free: "3 \<le> rx_free s" by simp_all
  from rx_fifo_three [OF ok free, of a b c h] obtain r where
    run: "rx_run_ops [Stage a, RxComplete, Stage b, RxComplete, Stage c, RxComplete,
                      ReadByte, ReadByte, ReadByte]
            \<lparr>port = s, uart = h, committed = [], popped = []\<rparr> = Inr r"
    and c: "committed r = [a, b, c]"
    and p: "popped r = map uint (take 3 (rx_contents s @ [a, b, c]))"
    by blast
  have "rxHead s = rxTail s \<longrightarrow> popped r = [uint a, uint b, uint c]"
    using p rx_empty_iff [OF ok] by auto
  with run c p show "\<exists>r. rx_run_ops [Stage a, RxComplete, Stage b, RxComplete, Stage c,
        RxComplete, ReadByte, ReadByte, ReadByte]
              \<lparr>port = s, uart = h, committed = [], popped = []\<rparr> = Inr r
         \<and> committed r = [a, b, c]
         \<and> popped r = map uint (take 3 (rx_contents s @ [a, b, c]))
         \<and> (rxHead s = rxTail s \<longrightarrow> popped r = [uint a, uint b, uint c])"
    by blast
next
  assume a: "tx_ok s \<and> 3 \<le> tx_free s \<and> gState h \<noteq> HAL_UART_STATE_READY"
  then have ok: "tx_ok s" and free: "3 \<le> tx_free s"
    and busy: "gState h \<noteq> HAL_UART_STATE_READY" by simp_all
  from tx_fifo_three [OF ok free busy, of a b c] obtain r where
    run: "tx_run_ops [WriteByte a, WriteByte b, WriteByte c,
                      TxComplete, TxComplete, TxComplete]
            \<lparr>tport = s, tuart = h, accepted = []\<rparr> = Inr r"
    and c: "accepted r = [a, b, c]"
    and p: "transmitted (calls (tuart r))
             = transmitted (calls h) @ take 3 (tx_contents s @ [a, b, c])"
    by blast
  have "txHead s = txTail s \<longrightarrow>
      transmitted (calls (tuart r)) = transmitted (calls h) @ [a, b, c]"
    using p tx_empty_iff [OF ok] by auto
  with run c p show "\<exists>r. tx_run_ops [WriteByte a, WriteByte b, WriteByte c,
                        TxComplete, TxComplete, TxComplete]
              \<lparr>tport = s, tuart = h, accepted = []\<rparr> = Inr r
         \<and> accepted r = [a, b, c]
         \<and> transmitted (calls (tuart r))
             = transmitted (calls h) @ take 3 (tx_contents s @ [a, b, c])
         \<and> (txHead s = txTail s \<longrightarrow>
              transmitted (calls (tuart r)) = transmitted (calls h) @ [a, b, c])"
    by blast
next
  fix ops
  assume a: "rx_ok s \<and> 2 \<le> unat (rxSize s)"
  let ?r0 = "\<lparr>port = s, uart = h, committed = [], popped = []\<rparr>"
  have "\<exists>r'. rx_run_ops ops ?r0 = Inr r' \<and> rx_ok (port r')
      \<and> rxSize (port r') = rxSize (port ?r0)
      \<and> map uint (rx_contents s @ committed r') = popped r' @ map uint (rx_contents (port r'))"
    by (rule rx_run_invariant) (use a in simp_all)
  then show "\<exists>r. rx_run_ops ops ?r0 = Inr r
      \<and> popped r @ map uint (rx_contents (port r)) = map uint (rx_contents s @ committed r)"
    by auto
next
  fix ops
  assume ok: "tx_ok s"
  let ?r0 = "\<lparr>tport = s, tuart = h, accepted = []\<rparr>"
  have "\<exists>r'. tx_run_ops ops ?r0 = Inr r' \<and> tx_ok (tport r')
      \<and> transmitted (calls (tuart r')) @ tx_contents (tport r')
          = (transmitted (calls h) @ tx_contents s) @ accepted r'"
    by (rule tx_run_invariant) (use ok in simp_all)
  then show "\<exists>r. tx_run_ops ops ?r0 = Inr r
      \<and> transmitted (calls (tuart r)) @ tx_contents (tport r)
          = transmitted (calls h) @ tx_contents s @ accepted r"
    by auto
qed

theorem fifo_order_witness:
  "rx_ok fresh_port \<and> 3 \<le> rx_free fresh_port \<and> rxHead fresh_port = rxTail fresh_port
   \<and> (\<exists>r. rx_run_ops [Stage 1, RxComplete, Stage 2, RxComplete, Stage 3, RxComplete,
                      ReadByte, ReadByte, ReadByte]
            \<lparr>port = fresh_port, uart = stale_uart, committed = [], popped = []\<rparr> = Inr r
       \<and> committed r = [1, 2, 3] \<and> popped r = [1, 2, 3])
   \<and> tx_ok fresh_port \<and> 3 \<le> tx_free fresh_port
   \<and> gState stale_uart \<noteq> HAL_UART_STATE_READY \<and> txHead fresh_port = txTail fresh_port
   \<and> (\<exists>r. tx_run_ops [WriteByte 1, WriteByte 2, WriteByte 3,
                      TxComplete, TxComplete, TxComplete]
            \<lparr>tport = fresh_port, tuart = stale_uart, accepted = []\<rparr> = Inr r
       \<and> accepted r = [1, 2, 3] \<and> transmitted (calls (tuart r)) = [1, 2, 3])"
proof -
  have b: "gState stale_uart \<noteq> HAL_UART_STATE_READY" "calls stale_uart = []"
    by (simp_all add: stale_uart_def)
  show ?thesis
    using b fresh_port_facts fifo_order [of fresh_port 1 2 3 stale_uart]
    by auto
qed

text \<open>
  The claim as stated, refuted: it asks for \<open>[a, b, c]\<close> from every state with enough
  free capacity. A capacity-8 inbound ring that already holds the byte 9 has six free
  slots; pushing 1, 2, 3 and reading three times returns 9, 1, 2.
\<close>

theorem fifo_returns_older_bytes_first:
  "rx_ok one_queued_port \<and> 3 \<le> rx_free one_queued_port
   \<and> (\<exists>r. rx_run_ops [Stage 1, RxComplete, Stage 2, RxComplete, Stage 3, RxComplete,
                      ReadByte, ReadByte, ReadByte]
            \<lparr>port = one_queued_port, uart = idle_uart, committed = [], popped = []\<rparr> = Inr r
       \<and> popped r = [9, 1, 2] \<and> popped r \<noteq> [1, 2, 3])"
proof -
  have f: "3 \<le> rx_free one_queued_port" by (simp add: one_queued_port_facts)
  from rx_fifo_three [OF one_queued_port_facts(1) f, of 1 2 3 idle_uart]
  show ?thesis
    using f by (auto simp: one_queued_port_facts)
qed

text \<open>
  C9 (registry lookup). For a handle whose \<^verbatim>\<open>Instance\<close> is one of the six supported
  peripherals, \<^verbatim>\<open>fromHandle\<close> after \<^verbatim>\<open>registerInstance(h, p)\<close> returns \<open>p\<close>; a
  second registration for the same handle replaces the entry; and the entry survives
  every sequence of operations that contains no registration (explicit or by a
  constructor) for the same peripheral. For a handle whose peripheral was never
  registered since program start, \<^verbatim>\<open>fromHandle\<close> returns \<^verbatim>\<open>nullptr\<close>, and on
  \<^verbatim>\<open>nullptr\<close> both HAL callbacks leave the program state as it is.
\<close>

theorem registry_lookup:
  "(handles w hu = Some h \<and> Instance h \<in> {USART1, USART2, USART3, UART4, UART5, USART6} \<longrightarrow>
      (\<exists>w1. registerInstance hu inst w = Inr w1 \<and> fromHandle hu w1 = Inr inst
         \<and> (\<forall>inst2. \<exists>w2. registerInstance hu inst2 w1 = Inr w2 \<and> fromHandle hu w2 = Inr inst2)
         \<and> (\<forall>cs w2. perform_all cs w1 = Inr w2
                \<and> (\<forall>c\<in>set cs. \<not> registers_for w1 (Instance h) c)
              \<longrightarrow> fromHandle hu w2 = Inr inst)))
   \<and> (hs hu = Some h \<and> perform_all cs (initial_world hs) = Inr w2
        \<and> (\<forall>c\<in>set cs. \<not> registers_for (initial_world hs) (Instance h) c)
      \<longrightarrow> fromHandle hu w2 = Inr None)
   \<and> (fromHandle hu w = Inr None \<longrightarrow>
        HAL_UART_RxCpltCallback hu w = Inr w \<and> HAL_UART_TxCpltCallback hu w = Inr w)"
proof (intro conjI impI)
  assume a: "handles w hu = Some h
      \<and> Instance h \<in> {USART1, USART2, USART3, UART4, UART5, USART6}"
  then have h: "handles w hu = Some h" by simp
  from a obtain i where sl: "slot_of (Instance h) = Some i"
    using slot_of_supported [of "Instance h"] by blast
  from register_then_lookup [OF h sl, of inst] obtain w1 where
    r1: "registerInstance hu inst w = Inr w1" and l1: "fromHandle hu w1 = Inr inst"
    and h1: "handles w1 = handles w"
    by blast
  have h1': "handles w1 hu = Some h" using h h1 by simp
  have again: "\<forall>inst2. \<exists>w2. registerInstance hu inst2 w1 = Inr w2 \<and> fromHandle hu w2 = Inr inst2"
    using register_then_lookup [OF h1' sl] by blast
  have idt: "identity_of w1 hu = Some (Instance h)"
    using h1' by (simp add: identity_of_def)
  have later: "\<forall>cs w2. perform_all cs w1 = Inr w2
                \<and> (\<forall>c\<in>set cs. \<not> registers_for w1 (Instance h) c)
              \<longrightarrow> fromHandle hu w2 = Inr inst"
    using perform_all_keeps_lookup [OF _ idt] l1 by auto
  show "\<exists>w1. registerInstance hu inst w = Inr w1 \<and> fromHandle hu w1 = Inr inst
         \<and> (\<forall>inst2. \<exists>w2. registerInstance hu inst2 w1 = Inr w2 \<and> fromHandle hu w2 = Inr inst2)
         \<and> (\<forall>cs w2. perform_all cs w1 = Inr w2
                \<and> (\<forall>c\<in>set cs. \<not> registers_for w1 (Instance h) c)
              \<longrightarrow> fromHandle hu w2 = Inr inst)"
    using r1 l1 again later by blast
next
  assume a: "hs hu = Some h \<and> perform_all cs (initial_world hs) = Inr w2
        \<and> (\<forall>c\<in>set cs. \<not> registers_for (initial_world hs) (Instance h) c)"
  then have idt: "identity_of (initial_world hs) hu = Some (Instance h)"
    by (simp add: identity_of_def initial_world_def)
  from a have "fromHandle hu w2 = fromHandle hu (initial_world hs)"
    using perform_all_keeps_lookup [OF _ idt] by blast
  then show "fromHandle hu w2 = Inr None"
    using a initial_lookup [of hs hu h] by simp
next
  assume "fromHandle hu w = Inr None"
  then show "HAL_UART_RxCpltCallback hu w = Inr w" and "HAL_UART_TxCpltCallback hu w = Inr w"
    by (rule callbacks_ignore_unregistered)+
qed

theorem registry_lookup_witness:
  "handles one_uart_world 1 = Some idle_uart
   \<and> Instance idle_uart \<in> {USART1, USART2, USART3, UART4, UART5, USART6}
   \<and> (\<exists>w1. registerInstance 1 (Some 7) one_uart_world = Inr w1
         \<and> fromHandle 1 w1 = Inr (Some 7)
         \<and> (\<exists>w2. registerInstance 1 (Some 8) w1 = Inr w2 \<and> fromHandle 1 w2 = Inr (Some 8)))
   \<and> fromHandle 1 one_uart_world = Inr None
   \<and> HAL_UART_RxCpltCallback 1 one_uart_world = Inr one_uart_world
   \<and> HAL_UART_TxCpltCallback 1 one_uart_world = Inr one_uart_world"
  using one_uart_world_facts
    registry_lookup [of one_uart_world 1 idle_uart "Some 7" "\<lambda>a. None" "[]" one_uart_world]
  by auto

text \<open>
  C10 (registry frame). The table changes only through \<^verbatim>\<open>registerInstance\<close>, which the
  application calls and which the constructor calls too: constructing an object
  on a handle of a supported peripheral stores the new object in that peripheral's slot,
  and on any other handle leaves the table as it is. Every other operation leaves the
  table unchanged, and no operation but a registration of \<^verbatim>\<open>nullptr\<close> empties an
  occupied slot.
\<close>

theorem registry_changes_only_by_registration:
  assumes run: "perform c w = Inr w'"
  shows "instance_table w'
      = (case c of
           Construct this hu n junk_rx junk_tx \<Rightarrow>
             (case slot_at w hu of None \<Rightarrow> instance_table w
              | Some i \<Rightarrow> (instance_table w)(i := Some this))
         | RegisterInstance hu inst \<Rightarrow>
             (case slot_at w hu of None \<Rightarrow> instance_table w
              | Some i \<Rightarrow> (instance_table w)(i := inst))
         | _ \<Rightarrow> instance_table w)
    \<and> ((\<forall>hu. c \<noteq> RegisterInstance hu None) \<longrightarrow>
        (\<forall>i. instance_table w i \<noteq> None \<longrightarrow> instance_table w' i \<noteq> None))"
proof -
  note fr = perform_frame(2) [OF run]
  have "(\<forall>hu. c \<noteq> RegisterInstance hu None) \<longrightarrow>
        (\<forall>i. instance_table w i \<noteq> None \<longrightarrow> instance_table w' i \<noteq> None)"
    unfolding fr by (cases c) (auto split: option.splits)
  with fr show ?thesis by blast
qed

theorem registry_changes_only_by_registration_witness:
  "\<exists>w'. perform (Construct 7 1 256 (\<lambda>i. 0) (\<lambda>i. 0)) one_uart_world = Inr w'
     \<and> instance_table w' = (instance_table one_uart_world)(1 := Some 7)
     \<and> instance_table w' 1 \<noteq> None"
proof -
  have "\<exists>w'. perform (Construct 7 1 256 (\<lambda>i. 0) (\<lambda>i. 0)) one_uart_world = Inr w'"
    by (simp add: construct_def registerInstance_eq one_uart_world_def initial_world_def)
  then obtain w' where run: "perform (Construct 7 1 256 (\<lambda>i. 0) (\<lambda>i. 0)) one_uart_world = Inr w'" ..
  have sl: "slot_at one_uart_world 1 = Some 1"
    by (simp add: slot_at_def identity_of_def one_uart_world_def initial_world_def
        idle_uart_def)
  show ?thesis
    using run sl registry_changes_only_by_registration [OF run] by auto
qed

text \<open>
  The claim as stated, refuted: construction alone adds an entry. Before any constructor
  has run, slot 1 (USART2) is empty; constructing an object at address 7 on the USART2
  handle at address 1 stores 7 there.
\<close>

theorem construction_registers:
  "\<exists>w'. construct 7 1 256 (\<lambda>i. 0) (\<lambda>i. 0) one_uart_world = Inr w'
     \<and> instance_table one_uart_world 1 = None \<and> instance_table w' 1 = Some 7
     \<and> instance_table w' \<noteq> instance_table one_uart_world"
proof -
  have "\<exists>w'. construct 7 1 256 (\<lambda>i. 0) (\<lambda>i. 0) one_uart_world = Inr w'
     \<and> instance_table one_uart_world 1 = None \<and> instance_table w' 1 = Some 7"
    by (simp add: construct_def registerInstance_eq one_uart_world_def initial_world_def
        idle_uart_def)
  then show ?thesis by (metis option.distinct(1))
qed

end
